theory Spec2Isabelle
  imports Main "HOL-Library.Sublist" "HOL-Library.Product_Lexorder" "HOL-Library.Multiset"
begin

section \<open>SecuriWatch: the authentication-log collectors\<close>

text \<open>
  The repository holds two collectors that parse lines of an authentication log:
  \<^verbatim>\<open>backend/app/collectors/auth_collector.py\<close> (class \<^verbatim>\<open>AuthLogCollector\<close>, which prints
  a summary) and \<^verbatim>\<open>backend/app/collectors/auth_collector_db.py\<close> (class
  \<^verbatim>\<open>AuthLogCollectorDB\<close>, which stores the records in a database). Both are embedded
  here: every method becomes a HOL function of the same name (without the leading
  underscore; the database variant's names end in \<open>_db\<close>), an exception becomes the
  \<open>Inl\<close> branch of a sum, and the three things the methods read from their environment
  are parameters: the lines returned by \<^verbatim>\<open>read_logs\<close>, the year of \<^verbatim>\<open>datetime.now()\<close>,
  and the interpreter's limit on the length of a digit string given to \<^verbatim>\<open>int\<close>.
\<close>

subsection \<open>Python strings\<close>

text \<open>
  A Python string is a sequence of code points; a \<^typ>\<open>char\<close> is one code point of the
  range 0..255 (the Latin-1 block), so the model covers the lines written with these
  code points. The character predicates are the ones the interpreter uses for
  \<^verbatim>\<open>str.strip\<close>, \<^verbatim>\<open>str.lower\<close> and the classes \<^verbatim>\<open>\s\<close>, \<^verbatim>\<open>\d\<close>, \<^verbatim>\<open>\w\<close> of a string pattern,
  restricted to that range: white space is 9..13, 28..32, 133 and 160; the decimal
  digits are 48..57; a word character is a letter, a character with a numeric value, or
  the underscore; \<^verbatim>\<open>lower\<close> moves A..Z and the upper-case letters 192..222 (but 215, the
  multiplication sign) up by 32.
\<close>

definition is_space :: "char \<Rightarrow> bool" where
  "is_space c = (let n = (of_char c :: nat) in
     (9 \<le> n \<and> n \<le> 13) \<or> (28 \<le> n \<and> n \<le> 32) \<or> n = 133 \<or> n = 160)"

definition is_digit :: "char \<Rightarrow> bool" where
  "is_digit c = (let n = (of_char c :: nat) in 48 \<le> n \<and> n \<le> 57)"

definition is_word :: "char \<Rightarrow> bool" where
  "is_word c = (let n = (of_char c :: nat) in
     (48 \<le> n \<and> n \<le> 57) \<or> (65 \<le> n \<and> n \<le> 90) \<or> n = 95 \<or> (97 \<le> n \<and> n \<le> 122) \<or>
     n = 170 \<or> n = 178 \<or> n = 179 \<or> n = 181 \<or> n = 185 \<or> n = 186 \<or>
     (188 \<le> n \<and> n \<le> 190) \<or> (192 \<le> n \<and> n \<le> 214) \<or> (216 \<le> n \<and> n \<le> 246) \<or>
     248 \<le> n)"

definition lower_char :: "char \<Rightarrow> char" where
  "lower_char c = (let n = (of_char c :: nat) in
     if (65 \<le> n \<and> n \<le> 90) \<or> (192 \<le> n \<and> n \<le> 214) \<or> (216 \<le> n \<and> n \<le> 222)
     then char_of (n + 32) else c)"

text \<open>\<^verbatim>\<open>s.lower()\<close>\<close>

definition lower :: "string \<Rightarrow> string" where
  "lower s = map lower_char s"

text \<open>\<^verbatim>\<open>s.strip()\<close>: the white space at both ends is removed.\<close>

definition strip :: "string \<Rightarrow> string" where
  "strip s = rev (dropWhile is_space (rev (dropWhile is_space s)))"

text \<open>\<^verbatim>\<open>sub in s\<close>: \<open>sub\<close> occurs in \<open>s\<close> as a contiguous block.\<close>

fun contains :: "string \<Rightarrow> string \<Rightarrow> bool" where
  "contains sub [] = (sub = [])"
| "contains sub (x # xs) = (prefix sub (x # xs) \<or> contains sub xs)"

text \<open>
  \<^verbatim>\<open>str(n)\<close> for a natural number, and the value of a string of decimal digits
  (\<^verbatim>\<open>int(s)\<close> on such a string).
\<close>

definition digit_char :: "nat \<Rightarrow> char" where
  "digit_char d = char_of (48 + d)"

function str_of_nat :: "nat \<Rightarrow> string" where
  "str_of_nat n =
     (if n < 10 then [digit_char n] else str_of_nat (n div 10) @ [digit_char (n mod 10)])"
  by pat_completeness auto
termination
  by (relation "measure id") auto

declare str_of_nat.simps [simp del]

definition digits_value :: "string \<Rightarrow> nat" where
  "digits_value s = foldl (\<lambda>a c. 10 * a + (of_char c - 48)) 0 s"

text \<open>\<^verbatim>\<open>s.zfill(n)\<close>, the padding of the \<^verbatim>\<open>%02d\<close> and \<^verbatim>\<open>%04d\<close> formats.\<close>

definition zfill :: "nat \<Rightarrow> string \<Rightarrow> string" where
  "zfill n s = replicate (n - length s) (CHR ''0'') @ s"

text \<open>\<^verbatim>\<open>xs.index(x)\<close> on a list that holds \<open>x\<close>; the length of the list when it does not.\<close>

fun list_index :: "'a list \<Rightarrow> 'a \<Rightarrow> nat" where
  "list_index [] y = 0"
| "list_index (x # xs) y = (if x = y then 0 else Suc (list_index xs y))"

subsection \<open>Regular expressions\<close>

text \<open>
  The patterns of the collectors use one-character classes, the quantifiers \<^verbatim>\<open>+\<close>,
  \<^verbatim>\<open>+?\<close> and \<^verbatim>\<open>{m,n}\<close> on a class, sequencing, an optional group \<^verbatim>\<open>(?:...)?\<close>, capturing
  groups and the word boundary \<^verbatim>\<open>\b\<close>; the pattern that \<^verbatim>\<open>strptime\<close> builds from its
  format adds alternation, character ranges and letters matched without regard to case.
  A pattern is a value of \<open>rx\<close>.
\<close>

datatype cclass =
    Word                \<comment> \<open>\<^verbatim>\<open>\w\<close>\<close>
  | Digit               \<comment> \<open>\<^verbatim>\<open>\d\<close>\<close>
  | Space               \<comment> \<open>\<^verbatim>\<open>\s\<close>\<close>
  | NonSpace            \<comment> \<open>\<^verbatim>\<open>\S\<close>\<close>
  | AnyChar             \<comment> \<open>\<^verbatim>\<open>.\<close>: any character but the newline\<close>
  | Lit char            \<comment> \<open>a literal character\<close>
  | LitCI char          \<comment> \<open>a literal character under \<^verbatim>\<open>re.IGNORECASE\<close>\<close>
  | Range char char     \<comment> \<open>\<^verbatim>\<open>[a-b]\<close>\<close>

fun cmatch :: "cclass \<Rightarrow> char \<Rightarrow> bool" where
  "cmatch Word c = is_word c"
| "cmatch Digit c = is_digit c"
| "cmatch Space c = is_space c"
| "cmatch NonSpace c = (\<not> is_space c)"
| "cmatch AnyChar c = (c \<noteq> CHR 0x0A)"
| "cmatch (Lit a) c = (c = a)"
| "cmatch (LitCI a) c = (lower_char c = lower_char a)"
| "cmatch (Range a b) c = ((of_char a :: nat) \<le> of_char c \<and> (of_char c :: nat) \<le> of_char b)"

datatype rx =
    Cls cclass          \<comment> \<open>one character of the class\<close>
  | Plus cclass         \<comment> \<open>\<^verbatim>\<open>c+\<close>, greedy\<close>
  | LazyPlus cclass     \<comment> \<open>\<^verbatim>\<open>c+?\<close>, lazy\<close>
  | Rep cclass nat nat  \<comment> \<open>\<^verbatim>\<open>c{m,n}\<close>, greedy\<close>
  | Seq rx rx
  | Alt rx rx           \<comment> \<open>\<^verbatim>\<open>a|b\<close>, the left branch first\<close>
  | Opt rx              \<comment> \<open>\<^verbatim>\<open>(?:a)?\<close>, greedy\<close>
  | Group nat rx        \<comment> \<open>the capturing group of that number\<close>
  | WordB               \<comment> \<open>\<^verbatim>\<open>\b\<close>\<close>
  | Eps                 \<comment> \<open>the empty pattern\<close>

text \<open>
  The state of the matcher: the character before the current position (none at the start
  of the string), the text from the current position on, the text captured by each group
  that has taken part, and the number of the group closed last (\<^verbatim>\<open>match.lastindex\<close>).
\<close>

datatype mstate =
  MS (prev: "char option") (rest: string) (caps: "nat \<rightharpoonup> string") (lastindex: "nat option")

text \<open>
  \<open>runs k s\<close> lists the ways to read one, two, three, ... characters of the class \<open>k\<close>
  from the front of \<open>s\<close>: each with the last character read and the text left.
\<close>

fun runs :: "cclass \<Rightarrow> string \<Rightarrow> (char \<times> string) list" where
  "runs k [] = []"
| "runs k (x # xs) = (if cmatch k x then (x, xs) # runs k xs else [])"

definition advance :: "mstate \<Rightarrow> char \<times> string \<Rightarrow> mstate" where
  "advance st = (\<lambda>(x, xs). MS (Some x) xs (caps st) (lastindex st))"

definition steps :: "cclass \<Rightarrow> mstate \<Rightarrow> mstate list" where
  "steps k st = map (advance st) (runs k (rest st))"

definition at_boundary :: "mstate \<Rightarrow> bool" where
  "at_boundary st =
     ((case prev st of None \<Rightarrow> False | Some c \<Rightarrow> is_word c) \<noteq>
      (case rest st of [] \<Rightarrow> False | x # _ \<Rightarrow> is_word x))"

text \<open>A group that closes records the text read since it opened.\<close>

definition close_group :: "nat \<Rightarrow> mstate \<Rightarrow> mstate \<Rightarrow> mstate" where
  "close_group n st0 st =
     MS (prev st) (rest st)
        ((caps st)(n \<mapsto> take (length (rest st0) - length (rest st)) (rest st0)))
        (if n = 0 then lastindex st else Some n)"

text \<open>
  A backtracking matcher explores the ways to match in a fixed order and stops at the
  first that succeeds. \<open>rmatch r st\<close> lists the states after every way to match \<open>r\<close> from
  \<open>st\<close>, in that order: a greedy quantifier offers the longest run first, a lazy one the
  shortest, an alternation its left branch, an optional group its presence. The head of
  the list is the match the backtracking matcher returns.
\<close>

fun rmatch :: "rx \<Rightarrow> mstate \<Rightarrow> mstate list" where
  "rmatch (Cls k) st = take 1 (steps k st)"
| "rmatch (Plus k) st = rev (steps k st)"
| "rmatch (LazyPlus k) st = steps k st"
| "rmatch (Rep k lo hi) st =
     rev ((if lo = 0 then [st] else []) @ drop (lo - 1) (take hi (steps k st)))"
| "rmatch (Seq a b) st = concat (map (rmatch b) (rmatch a st))"
| "rmatch (Alt a b) st = rmatch a st @ rmatch b st"
| "rmatch (Opt a) st = rmatch a st @ [st]"
| "rmatch (Group n a) st = map (close_group n st) (rmatch a st)"
| "rmatch WordB st = (if at_boundary st then [st] else [])"
| "rmatch Eps st = [st]"

definition seqs :: "rx list \<Rightarrow> rx" where
  "seqs rs = foldr Seq rs Eps"

definition alts :: "rx \<Rightarrow> rx list \<Rightarrow> rx" where
  "alts r rs = foldl Alt r rs"

definition lit :: "string \<Rightarrow> rx" where
  "lit s = seqs (map (\<lambda>c. Cls (Lit c)) s)"

definition lit_ci :: "string \<Rightarrow> rx" where
  "lit_ci s = seqs (map (\<lambda>c. Cls (LitCI c)) s)"

text \<open>
  The match object is the final state; group 0 is the whole match.
  \<^verbatim>\<open>re.match\<close> tries the start of the string only, \<^verbatim>\<open>re.search\<close> every position from
  left to right (the end of the string included).
\<close>

definition first_match :: "rx \<Rightarrow> mstate \<Rightarrow> mstate option" where
  "first_match r st = (case rmatch (Group 0 r) st of [] \<Rightarrow> None | m # _ \<Rightarrow> Some m)"

definition re_match :: "rx \<Rightarrow> string \<Rightarrow> mstate option" where
  "re_match r s = first_match r (MS None s Map.empty None)"

fun search_from :: "rx \<Rightarrow> char option \<Rightarrow> string \<Rightarrow> mstate option" where
  "search_from r p [] = first_match r (MS p [] Map.empty None)"
| "search_from r p (x # xs) =
     (case first_match r (MS p (x # xs) Map.empty None) of
        Some m \<Rightarrow> Some m
      | None \<Rightarrow> search_from r (Some x) xs)"

definition re_search :: "rx \<Rightarrow> string \<Rightarrow> mstate option" where
  "re_search r s = search_from r None s"

subsection \<open>The library calls: \<^verbatim>\<open>datetime.strptime\<close>, \<^verbatim>\<open>isoformat\<close>, \<^verbatim>\<open>int\<close>, \<^verbatim>\<open>sorted\<close>\<close>

text \<open>The only exception the modelled code can raise.\<close>

datatype error = ValueError

record datetime =
  dt_year :: nat
  dt_month :: nat
  dt_day :: nat
  dt_hour :: nat
  dt_minute :: nat
  dt_second :: nat

text \<open>
  \<^verbatim>\<open>datetime.strptime(data, "%Y %b %d %H:%M:%S")\<close>. The library turns the format into
  the pattern
  \<^verbatim>\<open>(?P<Y>\d\d\d\d)\s+(?P<b>jan|feb|...|dec)\s+(?P<d>3[0-1]|[1-2]\d|0[1-9]|[1-9]| [1-9])\s+\<close>
  \<^verbatim>\<open>(?P<H>2[0-3]|[0-1]\d|\d):(?P<M>[0-5]\d|\d):(?P<S>6[0-1]|[0-5]\d|\d)\<close>,
  compiled with \<^verbatim>\<open>re.IGNORECASE\<close> (the month names are those of the C locale, which the
  collectors never change), matches it at the start of \<open>data\<close> and raises
  \<^verbatim>\<open>ValueError\<close> when it does not match or when text is left after the match. The named
  groups Y, b, d, H, M, S are the groups 1 to 6 here. The date is then built, and
  \<^verbatim>\<open>ValueError\<close> is raised for a year 0, a day the month does not have, or a second
  above 59.
\<close>

definition a_month :: "string list" where
  "a_month = [[], ''jan'', ''feb'', ''mar'', ''apr'', ''may'', ''jun'',
              ''jul'', ''aug'', ''sep'', ''oct'', ''nov'', ''dec'']"

definition format_regex :: rx where
  "format_regex = seqs [
     Group 1 (seqs [Cls Digit, Cls Digit, Cls Digit, Cls Digit]),
     Plus Space,
     Group 2 (alts (lit_ci ''jan'') (map lit_ci (drop 2 a_month))),
     Plus Space,
     Group 3 (alts (seqs [Cls (Lit CHR ''3''), Cls (Range CHR ''0'' CHR ''1'')])
                [seqs [Cls (Range CHR ''1'' CHR ''2''), Cls Digit],
                 seqs [Cls (Lit CHR ''0''), Cls (Range CHR ''1'' CHR ''9'')],
                 Cls (Range CHR ''1'' CHR ''9''),
                 seqs [Cls (Lit CHR '' ''), Cls (Range CHR ''1'' CHR ''9'')]]),
     Plus Space,
     Group 4 (alts (seqs [Cls (Lit CHR ''2''), Cls (Range CHR ''0'' CHR ''3'')])
                [seqs [Cls (Range CHR ''0'' CHR ''1''), Cls Digit],
                 Cls Digit]),
     Cls (Lit CHR '':''),
     Group 5 (alts (seqs [Cls (Range CHR ''0'' CHR ''5''), Cls Digit]) [Cls Digit]),
     Cls (Lit CHR '':''),
     Group 6 (alts (seqs [Cls (Lit CHR ''6''), Cls (Range CHR ''0'' CHR ''1'')])
                [seqs [Cls (Range CHR ''0'' CHR ''5''), Cls Digit],
                 Cls Digit])]"

definition is_leap :: "nat \<Rightarrow> bool" where
  "is_leap y = (y mod 4 = 0 \<and> (y mod 100 \<noteq> 0 \<or> y mod 400 = 0))"

definition days_in_month :: "nat \<Rightarrow> nat \<Rightarrow> nat" where
  "days_in_month y m =
     (if m = 2 then (if is_leap y then 29 else 28)
      else if m = 4 \<or> m = 6 \<or> m = 9 \<or> m = 11 then 30 else 31)"

definition strptime :: "string \<Rightarrow> error + datetime" where
  "strptime data =
     (case re_match format_regex data of
        None \<Rightarrow> Inl ValueError
      | Some found \<Rightarrow>
          if rest found \<noteq> [] then Inl ValueError
          else
            let year = digits_value (the (caps found 1));
                month = list_index a_month (lower (the (caps found 2)));
                day = digits_value (strip (the (caps found 3)));
                hour = digits_value (the (caps found 4));
                minute = digits_value (the (caps found 5));
                second = digits_value (the (caps found 6))
            in if year = 0 \<or> days_in_month year month < day \<or> 59 < second
               then Inl ValueError
               else Inr \<lparr>dt_year = year, dt_month = month, dt_day = day,
                         dt_hour = hour, dt_minute = minute, dt_second = second\<rparr>)"

text \<open>\<^verbatim>\<open>timestamp.isoformat()\<close>: \<^verbatim>\<open>YYYY-MM-DDTHH:MM:SS\<close>.\<close>

definition isoformat :: "datetime \<Rightarrow> string" where
  "isoformat t =
     zfill 4 (str_of_nat (dt_year t)) @ ''-'' @ zfill 2 (str_of_nat (dt_month t)) @ ''-'' @
     zfill 2 (str_of_nat (dt_day t)) @ ''T'' @ zfill 2 (str_of_nat (dt_hour t)) @ '':'' @
     zfill 2 (str_of_nat (dt_minute t)) @ '':'' @ zfill 2 (str_of_nat (dt_second t))"

text \<open>
  \<^verbatim>\<open>int(s)\<close> on a string of decimal digits. The interpreter refuses a string longer than
  its limit \<^verbatim>\<open>sys.get_int_max_str_digits()\<close> with \<^verbatim>\<open>ValueError\<close>; the limit is 4300
  unless configured, 0 switches it off, and an interpreter without the limit is the
  case 0.
\<close>

definition py_int :: "nat \<Rightarrow> string \<Rightarrow> error + nat" where
  "py_int max_str_digits s =
     (if max_str_digits \<noteq> 0 \<and> max_str_digits < length s then Inl ValueError
      else Inr (digits_value s))"

text \<open>
  \<^verbatim>\<open>sorted(xs, key=f, reverse=True)\<close>: descending by key, and stable (elements with equal
  keys stay in their order in \<open>xs\<close>), which is the stable ascending sort by the negated
  key.
\<close>

definition sorted_reverse :: "('a \<Rightarrow> int) \<Rightarrow> 'a list \<Rightarrow> 'a list" where
  "sorted_reverse f xs = sort_key (\<lambda>x. - f x) xs"

subsection \<open>The console collector, \<^verbatim>\<open>auth_collector.py\<close>\<close>

text \<open>The dictionary that \<^verbatim>\<open>parse_log_line\<close> returns.\<close>

record log_entry =
  timestamp :: string
  hostname :: string
  process :: string
  pid :: "string option"
  event_type :: string
  user :: string
  ip_address :: "string option"
  message :: string
  risk_score :: int
  raw_log :: string

text \<open>
  \<^verbatim>\<open>pattern = r'(\w+\s+\d+\s+\d+:\d+:\d+)\s+(\S+)\s+(\S+?)(?:\[(\d+)\])?:\s+(.+)'\<close>
\<close>

definition pattern :: rx where
  "pattern = seqs [
     Group 1 (seqs [Plus Word, Plus Space, Plus Digit, Plus Space,
                    Plus Digit, Cls (Lit CHR '':''), Plus Digit, Cls (Lit CHR '':''), Plus Digit]),
     Plus Space,
     Group 2 (Plus NonSpace),
     Plus Space,
     Group 3 (LazyPlus NonSpace),
     Opt (seqs [Cls (Lit CHR ''[''), Group 4 (Plus Digit), Cls (Lit CHR '']'')]),
     Cls (Lit CHR '':''),
     Plus Space,
     Group 5 (Plus AnyChar)]"

text \<open>
  \<^verbatim>\<open>
  if 'sudo' in process.lower():                     return 'SUDO_COMMAND'
  elif 'session opened' in message:                 return 'SESSION_OPEN'
  elif 'session closed' in message:                 return 'SESSION_CLOSE'
  elif 'authentication failure' in message.lower(): return 'AUTH_FAILURE'
  elif 'accepted' in message.lower():               return 'AUTH_SUCCESS'
  elif 'invalid user' in message.lower():           return 'INVALID_USER'
  elif 'cron' in process.lower():                   return 'CRON_JOB'
  else:                                             return 'OTHER'
  \<close>
\<close>

definition detect_event_type :: "string \<Rightarrow> string \<Rightarrow> string" where
  "detect_event_type proc msg =
     (if contains ''sudo'' (lower proc) then ''SUDO_COMMAND''
      else if contains ''session opened'' msg then ''SESSION_OPEN''
      else if contains ''session closed'' msg then ''SESSION_CLOSE''
      else if contains ''authentication failure'' (lower msg) then ''AUTH_FAILURE''
      else if contains ''accepted'' (lower msg) then ''AUTH_SUCCESS''
      else if contains ''invalid user'' (lower msg) then ''INVALID_USER''
      else if contains ''cron'' (lower proc) then ''CRON_JOB''
      else ''OTHER'')"

text \<open>
  \<^verbatim>\<open>
  patterns = [r'user (\w+)', r'for (\w+)', r'by \(uid=\d+\)']
  for pattern in patterns:
      match = re.search(pattern, message)
      if match:
          return match.group(1) if match.lastindex else 'root'
  return 'unknown'
  \<close>
\<close>

definition user_patterns :: "rx list" where
  "user_patterns =
     [seqs [lit ''user '', Group 1 (Plus Word)],
      seqs [lit ''for '', Group 1 (Plus Word)],
      seqs [lit ''by (uid='', Plus Digit, Cls (Lit CHR '')'')]]"

fun extract_user_loop :: "rx list \<Rightarrow> string \<Rightarrow> string" where
  "extract_user_loop [] msg = ''unknown''"
| "extract_user_loop (p # ps) msg =
     (case re_search p msg of
        Some m \<Rightarrow> (case lastindex m of Some i \<Rightarrow> the (caps m 1) | None \<Rightarrow> ''root'')
      | None \<Rightarrow> extract_user_loop ps msg)"

definition extract_user :: "string \<Rightarrow> string" where
  "extract_user msg = extract_user_loop user_patterns msg"

text \<open>
  \<^verbatim>\<open>
  ip_pattern = r'\b(?:\d{1,3}\.){3}\d{1,3}\b'
  match = re.search(ip_pattern, message)
  return match.group(0) if match else None
  \<close>
\<close>

definition ip_pattern :: rx where
  "ip_pattern = seqs [
     WordB,
     seqs [Rep Digit 1 3, Cls (Lit CHR ''.'')],
     seqs [Rep Digit 1 3, Cls (Lit CHR ''.'')],
     seqs [Rep Digit 1 3, Cls (Lit CHR ''.'')],
     Rep Digit 1 3,
     WordB]"

definition extract_ip :: "string \<Rightarrow> string option" where
  "extract_ip msg = (case re_search ip_pattern msg of Some m \<Rightarrow> caps m 0 | None \<Rightarrow> None)"

text \<open>
  \<^verbatim>\<open>
  base_score = risk_scores.get(event_type, 2)
  if 'failed' in message.lower(): base_score += 2
  if 'root' in message.lower():   base_score += 1
  return min(base_score, 10)
  \<close>
\<close>

definition risk_scores :: "(string \<times> int) list" where
  "risk_scores =
     [(''AUTH_FAILURE'', 7), (''INVALID_USER'', 8), (''SUDO_COMMAND'', 5), (''AUTH_SUCCESS'', 2),
      (''SESSION_OPEN'', 3), (''SESSION_CLOSE'', 1), (''CRON_JOB'', 1), (''OTHER'', 2)]"

definition calculate_risk :: "string \<Rightarrow> string \<Rightarrow> int" where
  "calculate_risk etype msg =
     (let base_score = (case map_of risk_scores etype of Some v \<Rightarrow> v | None \<Rightarrow> 2);
          base_score = (if contains ''failed'' (lower msg) then base_score + 2 else base_score);
          base_score = (if contains ''root'' (lower msg) then base_score + 1 else base_score)
      in min base_score 10)"

text \<open>
  \<^verbatim>\<open>parse_log_line\<close>: \<open>Inr None\<close> is the returned \<^verbatim>\<open>None\<close>, \<open>Inl\<close> the exception that
  \<^verbatim>\<open>strptime\<close> raises (nothing in the method catches it). \<open>current_year\<close> is
  \<^verbatim>\<open>datetime.now().year\<close>.
\<close>

definition parse_log_line :: "nat \<Rightarrow> string \<Rightarrow> error + log_entry option" where
  "parse_log_line current_year line =
     (case re_match pattern line of
        None \<Rightarrow> Inr None
      | Some m \<Rightarrow>
          let timestamp_str = the (caps m 1);
              host = the (caps m 2);
              proc = the (caps m 3);
              msg = the (caps m 5)
          in (case strptime (str_of_nat current_year @ '' '' @ timestamp_str) of
                Inl e \<Rightarrow> Inl e
              | Inr ts \<Rightarrow>
                  let etype = detect_event_type proc msg in
                  Inr (Some \<lparr>timestamp = isoformat ts, hostname = host, process = proc,
                             pid = caps m 4, event_type = etype, user = extract_user msg,
                             ip_address = extract_ip msg, message = msg,
                             risk_score = calculate_risk etype msg, raw_log = line\<rparr>)))"

text \<open>
  \<^verbatim>\<open>
  for log_line in raw_logs:
      if log_line.strip():
          parsed = self.parse_log_line(log_line)
          if parsed:
              parsed_logs.append(parsed)
  return parsed_logs
  \<close>
  \<open>raw_logs\<close> is what \<^verbatim>\<open>read_logs\<close> returned. An exception of \<^verbatim>\<open>parse_log_line\<close> ends
  the loop and leaves \<^verbatim>\<open>collect\<close>.
\<close>

fun collect_loop :: "nat \<Rightarrow> string list \<Rightarrow> log_entry list \<Rightarrow> error + log_entry list" where
  "collect_loop current_year [] parsed_logs = Inr parsed_logs"
| "collect_loop current_year (log_line # raw_logs) parsed_logs =
     (if strip log_line \<noteq> [] then
        (case parse_log_line current_year log_line of
           Inl e \<Rightarrow> Inl e
         | Inr None \<Rightarrow> collect_loop current_year raw_logs parsed_logs
         | Inr (Some parsed) \<Rightarrow> collect_loop current_year raw_logs (parsed_logs @ [parsed]))
      else collect_loop current_year raw_logs parsed_logs)"

definition collect :: "nat \<Rightarrow> string list \<Rightarrow> error + log_entry list" where
  "collect current_year raw_logs = collect_loop current_year raw_logs []"

text \<open>
  \<^verbatim>\<open>display_summary\<close>: the events it prints under its top-5 heading, in the order
  printed.
  \<^verbatim>\<open>
  for log in logs:
      if log['risk_score'] >= 5: risk_events.append(log)
  for log in sorted(risk_events, key=lambda x: x['risk_score'], reverse=True)[:5]: print(...)
  \<close>
\<close>

definition risk_events :: "log_entry list \<Rightarrow> log_entry list" where
  "risk_events logs = filter (\<lambda>log. 5 \<le> risk_score log) logs"

definition display_summary :: "log_entry list \<Rightarrow> log_entry list" where
  "display_summary logs = take 5 (sorted_reverse risk_score (risk_events logs))"

subsection \<open>The database collector, \<^verbatim>\<open>auth_collector_db.py\<close>\<close>

text \<open>
  The dictionary that this variant's \<^verbatim>\<open>parse_log_line\<close> returns, which becomes a row of
  the table \<^verbatim>\<open>logs\<close>: the time stamp is kept as a date, the process id is converted with
  \<^verbatim>\<open>int\<close>, and the user is stored under \<^verbatim>\<open>user_name\<close>.
\<close>

record log_row =
  timestamp_db :: datetime
  hostname_db :: string
  process_db :: string
  pid_db :: "nat option"
  event_type_db :: string
  user_name :: string
  ip_address_db :: "string option"
  message_db :: string
  risk_score_db :: int
  raw_log_db :: string

text \<open>The pattern of \<^verbatim>\<open>parse_log_line\<close> is the console variant's, character for character.\<close>

definition pattern_db :: rx where
  "pattern_db = seqs [
     Group 1 (seqs [Plus Word, Plus Space, Plus Digit, Plus Space,
                    Plus Digit, Cls (Lit CHR '':''), Plus Digit, Cls (Lit CHR '':''), Plus Digit]),
     Plus Space,
     Group 2 (Plus NonSpace),
     Plus Space,
     Group 3 (LazyPlus NonSpace),
     Opt (seqs [Cls (Lit CHR ''[''), Group 4 (Plus Digit), Cls (Lit CHR '']'')]),
     Cls (Lit CHR '':''),
     Plus Space,
     Group 5 (Plus AnyChar)]"

definition detect_event_type_db :: "string \<Rightarrow> string \<Rightarrow> string" where
  "detect_event_type_db proc msg =
     (if contains ''sudo'' (lower proc) then ''SUDO_COMMAND''
      else if contains ''session opened'' msg then ''SESSION_OPEN''
      else if contains ''session closed'' msg then ''SESSION_CLOSE''
      else if contains ''authentication failure'' (lower msg) then ''AUTH_FAILURE''
      else if contains ''accepted'' (lower msg) then ''AUTH_SUCCESS''
      else if contains ''invalid user'' (lower msg) then ''INVALID_USER''
      else if contains ''cron'' (lower proc) then ''CRON_JOB''
      else ''OTHER'')"

text \<open>
  \<^verbatim>\<open>
  patterns = [r'user (\w+)', r'for (\w+)']
  for pattern in patterns:
      match = re.search(pattern, message)
      if match:
          return match.group(1)
  if 'root' in message.lower():
      return 'root'
  return 'unknown'
  \<close>
\<close>

definition user_patterns_db :: "rx list" where
  "user_patterns_db =
     [seqs [lit ''user '', Group 1 (Plus Word)],
      seqs [lit ''for '', Group 1 (Plus Word)]]"

fun extract_user_loop_db :: "rx list \<Rightarrow> string \<Rightarrow> string" where
  "extract_user_loop_db [] msg = (if contains ''root'' (lower msg) then ''root'' else ''unknown'')"
| "extract_user_loop_db (p # ps) msg =
     (case re_search p msg of
        Some m \<Rightarrow> the (caps m 1)
      | None \<Rightarrow> extract_user_loop_db ps msg)"

definition extract_user_db :: "string \<Rightarrow> string" where
  "extract_user_db msg = extract_user_loop_db user_patterns_db msg"

definition ip_pattern_db :: rx where
  "ip_pattern_db = seqs [
     WordB,
     seqs [Rep Digit 1 3, Cls (Lit CHR ''.'')],
     seqs [Rep Digit 1 3, Cls (Lit CHR ''.'')],
     seqs [Rep Digit 1 3, Cls (Lit CHR ''.'')],
     Rep Digit 1 3,
     WordB]"

definition extract_ip_db :: "string \<Rightarrow> string option" where
  "extract_ip_db msg =
     (case re_search ip_pattern_db msg of Some m \<Rightarrow> caps m 0 | None \<Rightarrow> None)"

definition risk_scores_db :: "(string \<times> int) list" where
  "risk_scores_db =
     [(''AUTH_FAILURE'', 7), (''INVALID_USER'', 8), (''SUDO_COMMAND'', 5), (''AUTH_SUCCESS'', 2),
      (''SESSION_OPEN'', 3), (''SESSION_CLOSE'', 1), (''CRON_JOB'', 1), (''OTHER'', 2)]"

definition calculate_risk_db :: "string \<Rightarrow> string \<Rightarrow> int" where
  "calculate_risk_db etype msg =
     (let base_score = (case map_of risk_scores_db etype of Some v \<Rightarrow> v | None \<Rightarrow> 2);
          base_score = (if contains ''failed'' (lower msg) then base_score + 2 else base_score);
          base_score = (if contains ''root'' (lower msg) then base_score + 1 else base_score)
      in min base_score 10)"

text \<open>
  \<^verbatim>\<open>parse_log_line\<close> of the database variant. Its dictionary has
  \<^verbatim>\<open>'pid': int(pid) if pid else None\<close>, so \<^verbatim>\<open>int\<close> can raise as well.
\<close>

definition parse_log_line_db :: "nat \<Rightarrow> nat \<Rightarrow> string \<Rightarrow> error + log_row option" where
  "parse_log_line_db max_str_digits current_year line =
     (case re_match pattern_db line of
        None \<Rightarrow> Inr None
      | Some m \<Rightarrow>
          let timestamp_str = the (caps m 1);
              host = the (caps m 2);
              proc = the (caps m 3);
              msg = the (caps m 5)
          in (case strptime (str_of_nat current_year @ '' '' @ timestamp_str) of
                Inl e \<Rightarrow> Inl e
              | Inr ts \<Rightarrow>
                  let etype = detect_event_type_db proc msg in
                  (case (case caps m 4 of
                           None \<Rightarrow> Inr None
                         | Some p \<Rightarrow> if p = [] then Inr None
                                     else map_sum id Some (py_int max_str_digits p)) of
                     Inl e \<Rightarrow> Inl e
                   | Inr pid_value \<Rightarrow>
                       Inr (Some \<lparr>timestamp_db = ts, hostname_db = host, process_db = proc,
                                  pid_db = pid_value, event_type_db = etype,
                                  user_name = extract_user_db msg,
                                  ip_address_db = extract_ip_db msg, message_db = msg,
                                  risk_score_db = calculate_risk_db etype msg,
                                  raw_log_db = line\<rparr>))))"

text \<open>
  \<^verbatim>\<open>display_stats\<close>: the rows it prints under its top-5 heading. They come from the query
  \<^verbatim>\<open>
  db.query(Log).filter(Log.risk_score >= 5)
    .order_by(Log.risk_score.desc(), Log.timestamp.desc()).limit(5).all()
  \<close>
  over the whole table. Dates compare field by field from the year down. The query does
  not say in which order rows equal in both keys come: that is the database's choice. The
  argument \<open>table\<close> lists the rows in the order in which the database reads them, and
  rows equal in both keys keep that order (as they do when rows are read in the order of
  insertion and sorted stably); \<open>order_by_desc f rows\<close> is the descending stable sort.
  The scores and time stamps of the listing do not depend on that order, as the theorem
  on the top-5 listings shows below.
\<close>

definition dt_key :: "datetime \<Rightarrow> nat \<times> nat \<times> nat \<times> nat \<times> nat \<times> nat" where
  "dt_key t = (dt_year t, dt_month t, dt_day t, dt_hour t, dt_minute t, dt_second t)"

definition order_by_desc :: "('a \<Rightarrow> 'k :: linorder) \<Rightarrow> 'a list \<Rightarrow> 'a list" where
  "order_by_desc f rows = rev (sort_key f (rev rows))"

definition display_stats :: "log_row list \<Rightarrow> log_row list" where
  "display_stats table =
     take 5 (order_by_desc (\<lambda>r. (risk_score_db r, dt_key (timestamp_db r)))
               (filter (\<lambda>r. 5 \<le> risk_score_db r) table))"

subsection \<open>The specification's wording\<close>

text \<open>
  The definitions of this subsection follow the specification, not the code; the theorems
  below compare the code with them.

  Section 4.3 gives the classifier as an ordered decision list, the first matching rule
  deciding; section 4.4 gives the base scores as a table and the two additive adjustments;
  the glossary lists the eight event types.
\<close>

definition taxonomy :: "string list" where
  "taxonomy = [''SUDO_COMMAND'', ''SESSION_OPEN'', ''SESSION_CLOSE'', ''AUTH_FAILURE'',
               ''AUTH_SUCCESS'', ''INVALID_USER'', ''CRON_JOB'', ''OTHER'']"

definition contains_ci :: "string \<Rightarrow> string \<Rightarrow> bool" where
  "contains_ci sub s = sublist sub (lower s)"

definition classify_rules :: "((string \<Rightarrow> string \<Rightarrow> bool) \<times> string) list" where
  "classify_rules =
     [(\<lambda>proc msg. contains_ci ''sudo'' proc, ''SUDO_COMMAND''),
      (\<lambda>proc msg. sublist ''session opened'' msg, ''SESSION_OPEN''),
      (\<lambda>proc msg. sublist ''session closed'' msg, ''SESSION_CLOSE''),
      (\<lambda>proc msg. contains_ci ''authentication failure'' msg, ''AUTH_FAILURE''),
      (\<lambda>proc msg. contains_ci ''accepted'' msg, ''AUTH_SUCCESS''),
      (\<lambda>proc msg. contains_ci ''invalid user'' msg, ''INVALID_USER''),
      (\<lambda>proc msg. contains_ci ''cron'' proc, ''CRON_JOB''),
      (\<lambda>proc msg. True, ''OTHER'')]"

fun first_rule :: "((string \<Rightarrow> string \<Rightarrow> bool) \<times> string) list \<Rightarrow> string \<Rightarrow> string \<Rightarrow> string option" where
  "first_rule [] proc msg = None"
| "first_rule ((applies, result) # rules) proc msg =
     (if applies proc msg then Some result else first_rule rules proc msg)"

definition base_score_table :: "string \<Rightarrow> int option" where
  "base_score_table =
     [''AUTH_FAILURE'' \<mapsto> 7, ''INVALID_USER'' \<mapsto> 8, ''SUDO_COMMAND'' \<mapsto> 5, ''AUTH_SUCCESS'' \<mapsto> 2,
      ''SESSION_OPEN'' \<mapsto> 3, ''SESSION_CLOSE'' \<mapsto> 1, ''CRON_JOB'' \<mapsto> 1, ''OTHER'' \<mapsto> 2]"

definition score_spec :: "int \<Rightarrow> string \<Rightarrow> int" where
  "score_spec base msg =
     min (base + (if contains_ci ''failed'' msg then 2 else 0)
               + (if contains_ci ''root'' msg then 1 else 0)) 10"

subsection \<open>What a pattern guarantees\<close>

text \<open>
  Three properties of a pattern that can be read off its structure: the groups it
  mentions; whether every match reads at least one character; and whether every match
  leaves group \<open>n\<close> holding a non-empty text.
\<close>

fun groups_of :: "rx \<Rightarrow> nat set" where
  "groups_of (Group n r) = insert n (groups_of r)"
| "groups_of (Seq a b) = groups_of a \<union> groups_of b"
| "groups_of (Alt a b) = groups_of a \<union> groups_of b"
| "groups_of (Opt a) = groups_of a"
| "groups_of r = {}"

fun consumes :: "rx \<Rightarrow> bool" where
  "consumes (Cls k) = True"
| "consumes (Plus k) = True"
| "consumes (LazyPlus k) = True"
| "consumes (Rep k lo hi) = (0 < lo)"
| "consumes (Seq a b) = (consumes a \<or> consumes b)"
| "consumes (Alt a b) = (consumes a \<and> consumes b)"
| "consumes (Group n r) = consumes r"
| "consumes r = False"

fun captures_text :: "nat \<Rightarrow> rx \<Rightarrow> bool" where
  "captures_text n (Group k r) = (if k = n then consumes r else captures_text n r)"
| "captures_text n (Seq a b) = (captures_text n b \<or> (captures_text n a \<and> n \<notin> groups_of b))"
| "captures_text n (Alt a b) = (captures_text n a \<and> captures_text n b)"
| "captures_text n r = False"

subsection \<open>Sample data\<close>

text \<open>
  The scenario of the specification's section 8: five events with the scores 9, 9, 7, 8, 9
  and increasing time stamps, as console records and as table rows.
\<close>

definition sample_event :: "string \<Rightarrow> int \<Rightarrow> log_entry" where
  "sample_event ts score =
     \<lparr>timestamp = ts, hostname = ''myhost'', process = ''sshd'', pid = Some ''1234'',
      event_type = ''AUTH_FAILURE'', user = ''unknown'', ip_address = None,
      message = ''authentication failure'', risk_score = score, raw_log = []\<rparr>"

definition sample_logs :: "log_entry list" where
  "sample_logs =
     [sample_event ''2026-01-21T22:04:31'' 9, sample_event ''2026-01-21T22:04:32'' 9,
      sample_event ''2026-01-21T22:04:33'' 7, sample_event ''2026-01-21T22:04:34'' 8,
      sample_event ''2026-01-21T22:04:35'' 9]"

definition sample_row :: "nat \<Rightarrow> int \<Rightarrow> log_row" where
  "sample_row sec score =
     \<lparr>timestamp_db = \<lparr>dt_year = 2026, dt_month = 1, dt_day = 21, dt_hour = 22,
                      dt_minute = 4, dt_second = sec\<rparr>,
      hostname_db = ''myhost'', process_db = ''sshd'', pid_db = Some 1234,
      event_type_db = ''AUTH_FAILURE'', user_name = ''unknown'', ip_address_db = None,
      message_db = ''authentication failure'', risk_score_db = score, raw_log_db = []\<rparr>"

definition sample_table :: "log_row list" where
  "sample_table =
     [sample_row 31 9, sample_row 32 9, sample_row 33 7, sample_row 34 8, sample_row 35 9]"

text \<open>
  The sample line of the specification's section 8 with its message, and a line that has
  the shape of the pattern but no month name in its time stamp.
\<close>

definition sample_message :: string where
  "sample_message = ''Failed password for invalid user admin from 10.0.0.5 port 22 ssh2''"

definition sample_line :: string where
  "sample_line = ''Jan 21 22:04:35 myhost sshd[1234]: '' @ sample_message"

definition bad_line :: string where
  "bad_line = ''Foo 99 99:99:99 host proc: text''"

text \<open>A line of the cron daemon, and what the two variants make of it in 2026.\<close>

definition cron_line :: string where
  "cron_line = ''Jan  5 09:08:07 web1 cron[77]: (root) CMD (run-parts)''"

definition cron_record :: log_entry where
  "cron_record =
     \<lparr>timestamp = ''2026-01-05T09:08:07'', hostname = ''web1'', process = ''cron'',
      pid = Some ''77'', event_type = ''CRON_JOB'', user = ''unknown'', ip_address = None,
      message = ''(root) CMD (run-parts)'', risk_score = 2, raw_log = cron_line\<rparr>"

definition cron_row :: log_row where
  "cron_row =
     \<lparr>timestamp_db = \<lparr>dt_year = 2026, dt_month = 1, dt_day = 5, dt_hour = 9,
                      dt_minute = 8, dt_second = 7\<rparr>,
      hostname_db = ''web1'', process_db = ''cron'', pid_db = Some 77,
      event_type_db = ''CRON_JOB'', user_name = ''root'', ip_address_db = None,
      message_db = ''(root) CMD (run-parts)'', risk_score_db = 2, raw_log_db = cron_line\<rparr>"

text \<open>
  Section 4.2 describes user extraction by the phrases "user <name>" and "for <name>".
  \<open>name_after key msg\<close> is the name such a phrase yields, without any pattern: at the
  leftmost place where \<open>key\<close> is followed by a word character, the longest run of word
  characters after \<open>key\<close>. \<open>uid_marker msg\<close> says that \<open>msg\<close> holds the text
  \<^verbatim>\<open>by (uid=\<close>, one or more digits and a closing parenthesis.
\<close>

fun name_after :: "string \<Rightarrow> string \<Rightarrow> string option" where
  "name_after key [] = None"
| "name_after key (x # xs) =
     (if prefix key (x # xs) \<and> takeWhile is_word (drop (length key) (x # xs)) \<noteq> []
      then Some (takeWhile is_word (drop (length key) (x # xs)))
      else name_after key xs)"

fun uid_marker :: "string \<Rightarrow> bool" where
  "uid_marker [] = False"
| "uid_marker (x # xs) =
     ((prefix ''by (uid='' (x # xs) \<and>
       takeWhile is_digit (drop 8 (x # xs)) \<noteq> [] \<and>
       prefix '')'' (dropWhile is_digit (drop 8 (x # xs)))) \<or>
      uid_marker xs)"




text \<open>The row of the database variant for the sample line in 2026.\<close>

definition sample_row_2026 :: log_row where
  "sample_row_2026 =
     \<lparr>timestamp_db = \<lparr>dt_year = 2026, dt_month = 1, dt_day = 21, dt_hour = 22,
                      dt_minute = 4, dt_second = 35\<rparr>,
      hostname_db = ''myhost'', process_db = ''sshd'', pid_db = Some 1234,
      event_type_db = ''INVALID_USER'', user_name = ''admin'',
      ip_address_db = Some ''10.0.0.5'', message_db = sample_message, risk_score_db = 10,
      raw_log_db = sample_line\<rparr>"

section \<open>Theorems\<close>

subsection \<open>Substring tests\<close>

lemma contains_sublist: "contains sub s = sublist sub s"
  by (induction s) (simp_all add: sublist_Cons_right)

lemma contains_ci_code: "contains_ci sub s = contains sub (lower s)"
  by (simp add: contains_ci_def contains_sublist)

subsection \<open>The risk scorer\<close>

lemma map_of_risk_scores: "map_of risk_scores = base_score_table"
  by (simp add: risk_scores_def base_score_table_def fun_eq_iff)

lemma calculate_risk_db_eq: "calculate_risk_db etype msg = calculate_risk etype msg"
  by (simp add: calculate_risk_db_def calculate_risk_def risk_scores_db_def risk_scores_def)

lemma base_score_range:
  "1 \<le> (case base_score_table etype of Some b \<Rightarrow> b | None \<Rightarrow> (2::int)) \<and>
   (case base_score_table etype of Some b \<Rightarrow> b | None \<Rightarrow> (2::int)) \<le> 8"
  by (simp add: base_score_table_def)

text \<open>
  Claim C1. Both variants of \<^verbatim>\<open>_calculate_risk\<close> return, for every event type and message,
  the base score of the fixed table (AUTH_FAILURE 7, INVALID_USER 8, SUDO_COMMAND 5,
  AUTH_SUCCESS 2, SESSION_OPEN 3, SESSION_CLOSE 1, CRON_JOB 1, OTHER 2, and 2 for a string
  that is none of these), plus 2 when the message contains "failed" in any letter case,
  plus 1 when it contains "root" in any letter case, cut off at 10; the result is an
  integer between 0 and 10.
\<close>

theorem calculate_risk_spec:
  "calculate_risk etype msg =
     score_spec (case base_score_table etype of Some b \<Rightarrow> b | None \<Rightarrow> 2) msg \<and>
   calculate_risk_db etype msg = calculate_risk etype msg \<and>
   0 \<le> calculate_risk etype msg \<and> calculate_risk etype msg \<le> 10"
proof -
  have eq: "calculate_risk etype msg =
      score_spec (case base_score_table etype of Some b \<Rightarrow> b | None \<Rightarrow> 2) msg"
    by (simp add: calculate_risk_def score_spec_def contains_ci_code map_of_risk_scores Let_def)
  have lo: "0 \<le> score_spec (case base_score_table etype of Some b \<Rightarrow> b | None \<Rightarrow> 2) msg"
    using base_score_range [of etype] by (simp add: score_spec_def)
  have hi: "score_spec (case base_score_table etype of Some b \<Rightarrow> b | None \<Rightarrow> 2) msg \<le> 10"
    by (simp add: score_spec_def)
  show ?thesis
    using eq lo hi calculate_risk_db_eq by simp
qed

theorem calculate_risk_spec_witness:
  "calculate_risk ''INVALID_USER'' ''FAILED password for ROOT'' = 10 \<and>
   calculate_risk_db ''INVALID_USER'' ''FAILED password for ROOT'' = 10 \<and>
   calculate_risk ''SESSION_CLOSE'' ''session closed for user root'' = 2 \<and>
   calculate_risk ''no such type'' ''Failed password'' = 4"
proof -
  have a: "score_spec 8 ''FAILED password for ROOT'' = 10"
    by code_simp
  have b: "score_spec 1 ''session closed for user root'' = 2"
    by code_simp
  have c: "score_spec 2 ''Failed password'' = 4"
    by code_simp
  have t: "base_score_table ''INVALID_USER'' = Some 8" "base_score_table ''SESSION_CLOSE'' = Some 1"
    "base_score_table ''no such type'' = None"
    by (simp_all add: base_score_table_def)
  show ?thesis
    using calculate_risk_spec [of "''INVALID_USER''" "''FAILED password for ROOT''"]
      calculate_risk_spec [of "''SESSION_CLOSE''" "''session closed for user root''"]
      calculate_risk_spec [of "''no such type''" "''Failed password''"]
    by (simp add: a b c t)
qed

subsection \<open>The event classifier\<close>

lemma detect_event_type_db_eq: "detect_event_type_db proc msg = detect_event_type proc msg"
  by (simp add: detect_event_type_db_def detect_event_type_def)

lemma detect_event_type_rules:
  "first_rule classify_rules proc msg = Some (detect_event_type proc msg)"
  by (simp add: classify_rules_def detect_event_type_def contains_ci_code contains_sublist)

lemma detect_event_type_taxonomy: "detect_event_type proc msg \<in> set taxonomy"
  by (simp add: detect_event_type_def taxonomy_def)

text \<open>
  Claim C2. Both variants of \<^verbatim>\<open>_detect_event_type\<close> are total and return, for every
  process name and message, the result of the first rule that applies in the
  specification's list of eight rules, which is one of the eight event types; a process
  name that contains "sudo" in any letter case gives SUDO_COMMAND whatever else holds,
  also when the name contains "cron".
\<close>

theorem detect_event_type_spec:
  "first_rule classify_rules proc msg = Some (detect_event_type proc msg) \<and>
   detect_event_type proc msg \<in> set taxonomy \<and>
   (contains_ci ''sudo'' proc \<longrightarrow> detect_event_type proc msg = ''SUDO_COMMAND'') \<and>
   detect_event_type_db proc msg = detect_event_type proc msg"
  using detect_event_type_rules detect_event_type_taxonomy detect_event_type_db_eq
  by (simp add: detect_event_type_def contains_ci_code)

theorem detect_event_type_spec_witness:
  "contains_ci ''sudo'' ''Sudo-cron'' \<and> contains_ci ''cron'' ''Sudo-cron'' \<and>
   detect_event_type ''Sudo-cron'' ''session opened for user root'' = ''SUDO_COMMAND'' \<and>
   detect_event_type_db ''Sudo-cron'' ''session opened for user root'' = ''SUDO_COMMAND''"
proof -
  have s: "contains_ci ''sudo'' ''Sudo-cron''" "contains_ci ''cron'' ''Sudo-cron''"
    by code_simp+
  show ?thesis
    using detect_event_type_spec [of "''Sudo-cron''" "''session opened for user root''"] s
    by simp
qed

subsection \<open>The matcher\<close>

lemma runs_shorter: "(x, ys) \<in> set (runs k xs) \<Longrightarrow> length ys < length xs"
  by (induction xs) (auto split: if_splits)

lemma runs_suffix: "(x, ys) \<in> set (runs k xs) \<Longrightarrow> suffix ys xs"
  by (induction xs) (auto split: if_splits simp: suffix_Cons)

lemma steps_rest:
  "st' \<in> set (steps k st) \<Longrightarrow>
     length (rest st') < length (rest st) \<and> suffix (rest st') (rest st) \<and>
     caps st' = caps st \<and> lastindex st' = lastindex st"
  by (auto simp: steps_def advance_def dest: runs_shorter runs_suffix)

lemma in_drop_take: "x \<in> set (drop a (take b xs)) \<Longrightarrow> x \<in> set xs"
  by (meson in_set_dropD in_set_takeD)

lemma rmatch_class_cases:
  assumes "st' \<in> set (rmatch r st)"
    and "r = Cls k \<or> r = Plus k \<or> r = LazyPlus k \<or> r = Rep k lo hi"
  shows "st' \<in> set (steps k st) \<or> (st' = st \<and> r = Rep k 0 hi)"
  using assms by (auto dest: in_drop_take in_set_takeD split: if_splits)

lemma rmatch_suffix: "st' \<in> set (rmatch r st) \<Longrightarrow> suffix (rest st') (rest st)"
proof (induction r arbitrary: st st')
  case (Seq a b)
  from Seq.prems obtain mid where mid: "mid \<in> set (rmatch a st)" "st' \<in> set (rmatch b mid)"
    by auto
  show ?case
    using Seq.IH(1) [OF mid(1)] Seq.IH(2) [OF mid(2)] by (rule suffix_order.trans [rotated])
next
  case (Group n r)
  then show ?case by (auto simp: close_group_def)
next
  case (Cls k)
  then show ?case using rmatch_class_cases [OF Cls, of k] steps_rest by blast
next
  case (Plus k)
  then show ?case using rmatch_class_cases [OF Plus, of k] steps_rest by blast
next
  case (LazyPlus k)
  then show ?case using rmatch_class_cases [OF LazyPlus, of k] steps_rest by blast
next
  case (Rep k lo hi)
  then show ?case using rmatch_class_cases [OF Rep, of k lo hi] steps_rest by blast
qed (auto split: if_splits)

lemma rmatch_consumes:
  "consumes r \<Longrightarrow> st' \<in> set (rmatch r st) \<Longrightarrow> length (rest st') < length (rest st)"
proof (induction r arbitrary: st st')
  case (Seq a b)
  from Seq.prems obtain mid where mid: "mid \<in> set (rmatch a st)" "st' \<in> set (rmatch b mid)"
    by auto
  have le: "length (rest mid) \<le> length (rest st)" "length (rest st') \<le> length (rest mid)"
    using mid by (auto dest!: rmatch_suffix suffix_length_le)
  show ?case
  proof (cases "consumes a")
    case True
    then show ?thesis using Seq.IH(1) mid le by fastforce
  next
    case False
    then show ?thesis using Seq.IH(2) Seq.prems(1) mid le by fastforce
  qed
next
  case (Group n r)
  then show ?case by (auto simp: close_group_def)
next
  case (Cls k)
  then show ?case using rmatch_class_cases [OF Cls(2), of k] steps_rest by blast
next
  case (Plus k)
  then show ?case using rmatch_class_cases [OF Plus(2), of k] steps_rest by blast
next
  case (LazyPlus k)
  then show ?case using rmatch_class_cases [OF LazyPlus(2), of k] steps_rest by blast
next
  case (Rep k lo hi)
  then show ?case using rmatch_class_cases [OF Rep(2), of k lo hi] steps_rest by auto
qed (auto split: if_splits)

lemma rmatch_frame:
  "n \<notin> groups_of r \<Longrightarrow> st' \<in> set (rmatch r st) \<Longrightarrow> caps st' n = caps st n"
proof (induction r arbitrary: st st')
  case (Seq a b)
  then show ?case by fastforce
next
  case (Group k r)
  then show ?case by (auto simp: close_group_def)
next
  case (Cls k)
  then show ?case using rmatch_class_cases [OF Cls(2), of k] steps_rest by fastforce
next
  case (Plus k)
  then show ?case using rmatch_class_cases [OF Plus(2), of k] steps_rest by fastforce
next
  case (LazyPlus k)
  then show ?case using rmatch_class_cases [OF LazyPlus(2), of k] steps_rest by fastforce
next
  case (Rep k lo hi)
  then show ?case using rmatch_class_cases [OF Rep(2), of k lo hi] steps_rest by fastforce
qed (auto split: if_splits)

lemma rmatch_captures_text:
  "captures_text n r \<Longrightarrow> st' \<in> set (rmatch r st) \<Longrightarrow> \<exists>t. caps st' n = Some t \<and> t \<noteq> []"
proof (induction r arbitrary: st st')
  case (Seq a b)
  from Seq.prems obtain mid where mid: "mid \<in> set (rmatch a st)" "st' \<in> set (rmatch b mid)"
    by auto
  show ?case
  proof (cases "captures_text n b")
    case True
    then show ?thesis using Seq.IH(2) mid by blast
  next
    case False
    with Seq.prems have a: "captures_text n a" "n \<notin> groups_of b" by auto
    then show ?thesis using Seq.IH(1) [OF a(1) mid(1)] rmatch_frame [OF a(2) mid(2)] by simp
  qed
next
  case (Group k r)
  from Group.prems obtain mid where mid: "mid \<in> set (rmatch r st)" "st' = close_group k st mid"
    by auto
  show ?case
  proof (cases "k = n")
    case True
    with Group.prems have "consumes r" by simp
    then have "length (rest mid) < length (rest st)" using mid rmatch_consumes by blast
    then show ?thesis using True mid by (auto simp: close_group_def)
  next
    case False
    then show ?thesis using Group mid by (auto simp: close_group_def)
  qed
qed auto

lemma first_match_in: "first_match r st = Some m \<Longrightarrow> m \<in> set (rmatch (Group 0 r) st)"
  unfolding first_match_def by (cases "rmatch (Group 0 r) st") simp_all

lemma pattern_captures:
  "captures_text 1 (Group 0 pattern)" "captures_text 2 (Group 0 pattern)"
  "captures_text 3 (Group 0 pattern)" "captures_text 5 (Group 0 pattern)"
  by (simp_all add: pattern_def seqs_def)

lemma pattern_groups:
  assumes "re_match pattern line = Some m"
  shows "\<exists>t h p msg. caps m 1 = Some t \<and> caps m 2 = Some h \<and> caps m 3 = Some p \<and> caps m 5 = Some msg \<and>
           t \<noteq> [] \<and> h \<noteq> [] \<and> p \<noteq> [] \<and> msg \<noteq> []"
proof -
  from assms have "first_match pattern (MS None line Map.empty None) = Some m"
    by (simp add: re_match_def)
  then have "m \<in> set (rmatch (Group 0 pattern) (MS None line Map.empty None))"
    by (rule first_match_in)
  then show ?thesis
    using pattern_captures rmatch_captures_text by meson
qed

subsection \<open>The records of \<^verbatim>\<open>parse_log_line\<close>\<close>

lemma pattern_db_eq: "pattern_db = pattern"
  by (simp add: pattern_db_def pattern_def)

lemma parse_log_line_record:
  assumes "parse_log_line current_year line = Inr (Some r)"
  shows "\<exists>m ts. re_match pattern line = Some m \<and>
           strptime (str_of_nat current_year @ '' '' @ the (caps m 1)) = Inr ts \<and>
           r = \<lparr>timestamp = isoformat ts, hostname = the (caps m 2), process = the (caps m 3),
                 pid = caps m 4,
                 event_type = detect_event_type (the (caps m 3)) (the (caps m 5)),
                 user = extract_user (the (caps m 5)),
                 ip_address = extract_ip (the (caps m 5)), message = the (caps m 5),
                 risk_score =
                   calculate_risk (detect_event_type (the (caps m 3)) (the (caps m 5)))
                     (the (caps m 5)),
                 raw_log = line\<rparr>"
proof (cases "re_match pattern line")
  case None
  with assms show ?thesis by (simp add: parse_log_line_def)
next
  case (Some m)
  show ?thesis
  proof (cases "strptime (str_of_nat current_year @ '' '' @ the (caps m 1))")
    case (Inl e)
    with Some assms show ?thesis by (simp add: parse_log_line_def)
  next
    case (Inr ts)
    with Some assms show ?thesis by (simp add: parse_log_line_def Let_def)
  qed
qed

lemma parse_log_line_db_record:
  assumes "parse_log_line_db max_str_digits current_year line = Inr (Some row)"
  shows "\<exists>m ts. re_match pattern line = Some m \<and>
           strptime (str_of_nat current_year @ '' '' @ the (caps m 1)) = Inr ts \<and>
           timestamp_db row = ts \<and> hostname_db row = the (caps m 2) \<and>
           process_db row = the (caps m 3) \<and>
           event_type_db row = detect_event_type_db (the (caps m 3)) (the (caps m 5)) \<and>
           user_name row = extract_user_db (the (caps m 5)) \<and>
           ip_address_db row = extract_ip_db (the (caps m 5)) \<and>
           message_db row = the (caps m 5) \<and>
           risk_score_db row =
             calculate_risk_db (detect_event_type_db (the (caps m 3)) (the (caps m 5)))
               (the (caps m 5)) \<and>
           raw_log_db row = line"
proof (cases "re_match pattern line")
  case None
  with assms show ?thesis by (simp add: parse_log_line_db_def pattern_db_eq)
next
  case (Some m)
  show ?thesis
  proof (cases "strptime (str_of_nat current_year @ '' '' @ the (caps m 1))")
    case (Inl e)
    with Some assms show ?thesis by (simp add: parse_log_line_db_def pattern_db_eq)
  next
    case (Inr ts)
    let ?conv = "case caps m 4 of None \<Rightarrow> Inr None
      | Some p \<Rightarrow> if p = [] then Inr None else map_sum id Some (py_int max_str_digits p)"
    show ?thesis
    proof (cases ?conv)
      case (Inl e)
      with Some Inr assms show ?thesis by (simp add: parse_log_line_db_def pattern_db_eq Let_def)
    next
      case conv: (Inr pid_value)
      with Some Inr assms have "row =
          \<lparr>timestamp_db = ts, hostname_db = the (caps m 2), process_db = the (caps m 3),
           pid_db = pid_value,
           event_type_db = detect_event_type_db (the (caps m 3)) (the (caps m 5)),
           user_name = extract_user_db (the (caps m 5)),
           ip_address_db = extract_ip_db (the (caps m 5)), message_db = the (caps m 5),
           risk_score_db =
             calculate_risk_db (detect_event_type_db (the (caps m 3)) (the (caps m 5)))
               (the (caps m 5)),
           raw_log_db = line\<rparr>"
        by (simp add: parse_log_line_db_def pattern_db_eq Let_def)
      with Some Inr show ?thesis by simp
    qed
  qed
qed

lemma no_match_no_record:
  assumes "re_match pattern line = None"
  shows "parse_log_line current_year line = Inr None"
    and "parse_log_line_db max_str_digits current_year line = Inr None"
  using assms by (simp_all add: parse_log_line_def parse_log_line_db_def pattern_db_eq)

lemma colon_at_end_no_match:
  "re_match pattern ''Jan 21 22:04:35 myhost sshd[1234]:'' = None"
  by code_simp

lemma cron_line_record: "parse_log_line 2026 cron_line = Inr (Some cron_record)"
  by code_simp

lemma cron_line_row: "parse_log_line_db 4300 2026 cron_line = Inr (Some cron_row)"
  by code_simp

text \<open>
  Claim C10. Every record that \<^verbatim>\<open>parse_log_line\<close> produces, in either variant, has a
  process field and a message field that are not empty; and the line
  \<^verbatim>\<open>Jan 21 22:04:35 myhost sshd[1234]:\<close>, whose colon is followed by nothing, yields no
  record.
\<close>

theorem record_process_message_nonempty:
  "(parse_log_line current_year line = Inr (Some r) \<longrightarrow> process r \<noteq> [] \<and> message r \<noteq> []) \<and>
   (parse_log_line_db max_str_digits current_year line = Inr (Some row) \<longrightarrow>
      process_db row \<noteq> [] \<and> message_db row \<noteq> []) \<and>
   parse_log_line current_year ''Jan 21 22:04:35 myhost sshd[1234]:'' = Inr None \<and>
   parse_log_line_db max_str_digits current_year ''Jan 21 22:04:35 myhost sshd[1234]:'' = Inr None"
proof (intro conjI impI)
  assume "parse_log_line current_year line = Inr (Some r)"
  then obtain m where m: "re_match pattern line = Some m"
      "process r = the (caps m 3)" "message r = the (caps m 5)"
    using parse_log_line_record by fastforce
  from pattern_groups [OF m(1)] m(2,3)
  show "process r \<noteq> []" and "message r \<noteq> []" by auto
next
  assume "parse_log_line_db max_str_digits current_year line = Inr (Some row)"
  then obtain m where m: "re_match pattern line = Some m"
      "process_db row = the (caps m 3)" "message_db row = the (caps m 5)"
    using parse_log_line_db_record by blast
  from pattern_groups [OF m(1)] m(2,3)
  show "process_db row \<noteq> []" and "message_db row \<noteq> []" by auto
next
  show "parse_log_line current_year ''Jan 21 22:04:35 myhost sshd[1234]:'' = Inr None"
    using colon_at_end_no_match by (rule no_match_no_record)
  show "parse_log_line_db max_str_digits current_year ''Jan 21 22:04:35 myhost sshd[1234]:'' =
      Inr None"
    using colon_at_end_no_match by (rule no_match_no_record)
qed

theorem record_process_message_nonempty_witness:
  "parse_log_line 2026 cron_line = Inr (Some cron_record) \<and>
   parse_log_line_db 4300 2026 cron_line = Inr (Some cron_row) \<and>
   process cron_record \<noteq> [] \<and> message cron_record \<noteq> [] \<and>
   process_db cron_row \<noteq> [] \<and> message_db cron_row \<noteq> [] \<and>
   parse_log_line 2026 ''Jan 21 22:04:35 myhost sshd[1234]:'' = Inr None"
  using record_process_message_nonempty [of 2026 cron_line cron_record 4300 cron_row]
    cron_line_record cron_line_row
  by simp

subsection \<open>The top-5 listings\<close>

lemma listed_before_unlisted:
  assumes "sorted_wrt R S" and "x \<in> set (take n S)" and "e \<in> set (drop n S)"
  shows "R x e"
proof -
  have "sorted_wrt R (take n S @ drop n S)" using assms(1) by simp
  then show ?thesis using assms(2,3) unfolding sorted_wrt_append by blast
qed

lemma mset_take_drop: "mset S = mset (take n S) + mset (drop n S)"
  by (metis append_take_drop_id mset_append)

lemma mset_minus_take: "mset S - mset (take n S) = mset (drop n S)"
  using mset_take_drop [of S n] by simp

lemma mset_take_subset: "mset (take n S) \<subseteq># mset S"
  using mset_take_drop [of S n] by simp

lemma sorted_reverse_sorted:
  "sorted_wrt (\<lambda>a b. f b \<le> f a) (sorted_reverse f xs)"
proof -
  have "sorted (map (\<lambda>x. - f x) (sorted_reverse f xs))"
    unfolding sorted_reverse_def by (rule sorted_sort_key)
  then show ?thesis by (simp add: sorted_map)
qed

lemma sorted_reverse_mset: "mset (sorted_reverse f xs) = mset xs"
  by (simp add: sorted_reverse_def)

lemma display_summary_risk: "e \<in> set (display_summary logs) \<Longrightarrow> 5 \<le> risk_score e"
  by (auto simp: display_summary_def sorted_reverse_def risk_events_def dest: in_set_takeD)

lemma display_summary_sorted:
  "sorted_wrt (\<lambda>a b. risk_score b \<le> risk_score a) (display_summary logs)"
  unfolding display_summary_def using sorted_reverse_sorted by (rule sorted_wrt_take)

lemma display_summary_stable:
  "prefix (filter (\<lambda>e. risk_score e = k) (display_summary logs))
          (filter (\<lambda>e. risk_score e = k) logs)"
proof -
  let ?S = "sorted_reverse risk_score (risk_events logs)"
  have "filter (\<lambda>e. - risk_score e = - k) ?S = filter (\<lambda>e. - risk_score e = - k) (risk_events logs)"
    unfolding sorted_reverse_def by (rule sort_key_stable)
  then have S: "filter (\<lambda>e. risk_score e = k) ?S =
      (if 5 \<le> k then filter (\<lambda>e. risk_score e = k) logs else [])"
    by (auto simp: risk_events_def intro: filter_cong)
  have "prefix (filter (\<lambda>e. risk_score e = k) (take 5 ?S)) (filter (\<lambda>e. risk_score e = k) ?S)"
    by (rule filter_mono_prefix) (rule take_is_prefix)
  then show ?thesis
    by (simp add: display_summary_def S split: if_splits)
qed

lemma display_summary_length:
  "length (display_summary logs) = min 5 (length (filter (\<lambda>e. 5 \<le> risk_score e) logs))"
  by (simp add: display_summary_def sorted_reverse_def risk_events_def min.commute)

lemma display_summary_mset:
  "mset (display_summary logs) \<subseteq># mset (filter (\<lambda>e. 5 \<le> risk_score e) logs)"
  using mset_take_subset [of 5 "sorted_reverse risk_score (risk_events logs)"]
  by (simp add: display_summary_def sorted_reverse_mset risk_events_def)

lemma display_summary_top:
  assumes "x \<in> set (display_summary logs)"
    and "e \<in># mset (filter (\<lambda>e. 5 \<le> risk_score e) logs) - mset (display_summary logs)"
  shows "risk_score e \<le> risk_score x"
proof -
  let ?S = "sorted_reverse risk_score (risk_events logs)"
  have "mset (filter (\<lambda>e. 5 \<le> risk_score e) logs) - mset (display_summary logs) =
      mset (drop 5 ?S)"
    using mset_minus_take [of ?S 5]
    by (simp add: display_summary_def sorted_reverse_mset risk_events_def)
  with assms(2) have e: "e \<in> set (drop 5 ?S)" by simp
  from assms(1) have x: "x \<in> set (take 5 ?S)" by (simp add: display_summary_def)
  from sorted_reverse_sorted x e show ?thesis by (rule listed_before_unlisted)
qed

lemma order_by_desc_sorted: "sorted_wrt (\<lambda>a b. f b \<le> f a) (order_by_desc f rows)"
proof -
  have "sorted (map f (sort_key f (rev rows)))" by (rule sorted_sort_key)
  then have "sorted_wrt (\<lambda>a b. f a \<le> f b) (sort_key f (rev rows))"
    by (simp only: sorted_map)
  then show ?thesis
    by (simp add: order_by_desc_def sorted_wrt_rev)
qed

lemma order_by_desc_mset: "mset (order_by_desc f rows) = mset rows"
  by (simp add: order_by_desc_def)

lemma order_by_desc_keys:
  assumes "mset rows' = mset rows"
  shows "map f (order_by_desc f rows') = map f (order_by_desc f rows)"
proof -
  have key: "map f (sort_key f xs) = sort (map f xs)" for xs :: "'a list"
    by (rule properties_for_sort [symmetric]) (simp_all add: sorted_sort_key)
  have "mset (map f (rev rows')) = mset (map f (rev rows))"
    using assms by (metis mset_map mset_rev)
  then have "sort (map f (rev rows')) = sort (map f (rev rows))"
    by (metis properties_for_sort sorted_sort mset_sort)
  then show ?thesis
    by (simp add: order_by_desc_def rev_map [symmetric] key del: rev_map)
qed

lemma display_stats_risk: "r \<in> set (display_stats table) \<Longrightarrow> 5 \<le> risk_score_db r"
  by (auto simp: display_stats_def order_by_desc_def dest: in_set_takeD)

lemma display_stats_sorted:
  "sorted_wrt (\<lambda>a b. risk_score_db b < risk_score_db a \<or>
                 (risk_score_db b = risk_score_db a \<and>
                  dt_key (timestamp_db b) \<le> dt_key (timestamp_db a)))
     (display_stats table)"
proof -
  let ?key = "\<lambda>r. (risk_score_db r, dt_key (timestamp_db r))"
  let ?rows = "filter (\<lambda>r. 5 \<le> risk_score_db r) table"
  have "sorted_wrt (\<lambda>a b. ?key b \<le> ?key a) (order_by_desc ?key ?rows)"
    by (rule order_by_desc_sorted)
  then have "sorted_wrt (\<lambda>a b. risk_score_db b < risk_score_db a \<or>
                 (risk_score_db b = risk_score_db a \<and>
                  dt_key (timestamp_db b) \<le> dt_key (timestamp_db a)))
      (order_by_desc ?key ?rows)"
    by (rule sorted_wrt_mono_rel [rotated]) auto
  then show ?thesis
    unfolding display_stats_def by (rule sorted_wrt_take)
qed

lemma display_stats_length:
  "length (display_stats table) = min 5 (length (filter (\<lambda>r. 5 \<le> risk_score_db r) table))"
  by (simp add: display_stats_def order_by_desc_def min.commute)

lemma display_stats_mset:
  "mset (display_stats table) \<subseteq># mset (filter (\<lambda>r. 5 \<le> risk_score_db r) table)"
  using mset_take_subset [of 5 "order_by_desc (\<lambda>r. (risk_score_db r, dt_key (timestamp_db r)))
      (filter (\<lambda>r. 5 \<le> risk_score_db r) table)"]
  by (simp add: display_stats_def order_by_desc_mset)

lemma display_stats_top:
  assumes "x \<in> set (display_stats table)"
    and "e \<in># mset (filter (\<lambda>r. 5 \<le> risk_score_db r) table) - mset (display_stats table)"
  shows "risk_score_db e < risk_score_db x \<or>
         (risk_score_db e = risk_score_db x \<and>
          dt_key (timestamp_db e) \<le> dt_key (timestamp_db x))"
proof -
  let ?key = "\<lambda>r. (risk_score_db r, dt_key (timestamp_db r))"
  let ?S = "order_by_desc ?key (filter (\<lambda>r. 5 \<le> risk_score_db r) table)"
  have "mset (filter (\<lambda>r. 5 \<le> risk_score_db r) table) - mset (display_stats table) =
      mset (drop 5 ?S)"
    using mset_minus_take [of ?S 5]
    by (simp add: display_stats_def order_by_desc_mset)
  with assms(2) have e: "e \<in> set (drop 5 ?S)" by simp
  from assms(1) have x: "x \<in> set (take 5 ?S)" by (simp add: display_stats_def)
  have "sorted_wrt (\<lambda>a b. ?key b \<le> ?key a) ?S" by (rule order_by_desc_sorted)
  from this x e have "?key e \<le> ?key x" by (rule listed_before_unlisted)
  then show ?thesis by auto
qed

lemma display_stats_scan_order:
  assumes "mset table' = mset table"
  shows "map (\<lambda>r. (risk_score_db r, dt_key (timestamp_db r))) (display_stats table') =
         map (\<lambda>r. (risk_score_db r, dt_key (timestamp_db r))) (display_stats table)"
proof -
  have "mset (filter (\<lambda>r. 5 \<le> risk_score_db r) table') =
      mset (filter (\<lambda>r. 5 \<le> risk_score_db r) table)"
    using assms by (metis mset_filter)
  then have "map (\<lambda>r. (risk_score_db r, dt_key (timestamp_db r)))
        (order_by_desc (\<lambda>r. (risk_score_db r, dt_key (timestamp_db r)))
          (filter (\<lambda>r. 5 \<le> risk_score_db r) table')) =
      map (\<lambda>r. (risk_score_db r, dt_key (timestamp_db r)))
        (order_by_desc (\<lambda>r. (risk_score_db r, dt_key (timestamp_db r)))
          (filter (\<lambda>r. 5 \<le> risk_score_db r) table))"
    by (rule order_by_desc_keys)
  then have "take 5 (map (\<lambda>r. (risk_score_db r, dt_key (timestamp_db r)))
        (order_by_desc (\<lambda>r. (risk_score_db r, dt_key (timestamp_db r)))
          (filter (\<lambda>r. 5 \<le> risk_score_db r) table'))) =
      take 5 (map (\<lambda>r. (risk_score_db r, dt_key (timestamp_db r)))
        (order_by_desc (\<lambda>r. (risk_score_db r, dt_key (timestamp_db r)))
          (filter (\<lambda>r. 5 \<le> risk_score_db r) table)))"
    by (rule arg_cong)
  then show ?thesis
    unfolding display_stats_def by (simp only: take_map)
qed

text \<open>
  Claim C4, as the code has it. Each top-5 listing is the first five places of the
  ranking of the batch's risk events (the events with a risk score of 5 or more): it
  holds five events, or all risk events when there are fewer; its events are risk events
  of the batch, each at most as often as the batch has it; it is in descending order of
  the score; and no risk event left out ranks above a listed one. Among events of equal
  score the console variant (\<^verbatim>\<open>display_summary\<close>, a stable sort on the score alone) keeps
  the order of its input, so it lists the earliest of them, while the database variant
  (\<^verbatim>\<open>display_stats\<close>) puts the later time stamp first and lists the latest. The scores
  and time stamps that \<^verbatim>\<open>display_stats\<close> lists are the same in whatever order the
  database reads the table.
\<close>

theorem top5_order:
  "length (display_summary logs) = min 5 (length (filter (\<lambda>e. 5 \<le> risk_score e) logs)) \<and>
   length (display_summary logs) \<le> 5 \<and>
   mset (display_summary logs) \<subseteq># mset (filter (\<lambda>e. 5 \<le> risk_score e) logs) \<and>
   (\<forall>e \<in> set (display_summary logs). 5 \<le> risk_score e) \<and>
   sorted_wrt (\<lambda>a b. risk_score b \<le> risk_score a) (display_summary logs) \<and>
   (\<forall>x \<in> set (display_summary logs).
      \<forall>e \<in># mset (filter (\<lambda>e. 5 \<le> risk_score e) logs) - mset (display_summary logs).
        risk_score e \<le> risk_score x) \<and>
   prefix (filter (\<lambda>e. risk_score e = k) (display_summary logs))
          (filter (\<lambda>e. risk_score e = k) logs) \<and>
   length (display_stats table) = min 5 (length (filter (\<lambda>r. 5 \<le> risk_score_db r) table)) \<and>
   length (display_stats table) \<le> 5 \<and>
   mset (display_stats table) \<subseteq># mset (filter (\<lambda>r. 5 \<le> risk_score_db r) table) \<and>
   (\<forall>r \<in> set (display_stats table). 5 \<le> risk_score_db r) \<and>
   sorted_wrt (\<lambda>a b. risk_score_db b < risk_score_db a \<or>
                 (risk_score_db b = risk_score_db a \<and>
                  dt_key (timestamp_db b) \<le> dt_key (timestamp_db a)))
     (display_stats table) \<and>
   (\<forall>x \<in> set (display_stats table).
      \<forall>e \<in># mset (filter (\<lambda>r. 5 \<le> risk_score_db r) table) - mset (display_stats table).
        risk_score_db e < risk_score_db x \<or>
        (risk_score_db e = risk_score_db x \<and>
         dt_key (timestamp_db e) \<le> dt_key (timestamp_db x))) \<and>
   (mset table' = mset table \<longrightarrow>
      map (\<lambda>r. (risk_score_db r, dt_key (timestamp_db r))) (display_stats table') =
      map (\<lambda>r. (risk_score_db r, dt_key (timestamp_db r))) (display_stats table))"
proof (intro conjI ballI impI)
  show "length (display_summary logs) = min 5 (length (filter (\<lambda>e. 5 \<le> risk_score e) logs))"
    by (rule display_summary_length)
  then show "length (display_summary logs) \<le> 5"
    by simp
  show "mset (display_summary logs) \<subseteq># mset (filter (\<lambda>e. 5 \<le> risk_score e) logs)"
    by (rule display_summary_mset)
  show "sorted_wrt (\<lambda>a b. risk_score b \<le> risk_score a) (display_summary logs)"
    by (rule display_summary_sorted)
  show "prefix (filter (\<lambda>e. risk_score e = k) (display_summary logs))
          (filter (\<lambda>e. risk_score e = k) logs)"
    by (rule display_summary_stable)
  show len: "length (display_stats table) =
      min 5 (length (filter (\<lambda>r. 5 \<le> risk_score_db r) table))"
    by (rule display_stats_length)
  then show "length (display_stats table) \<le> 5"
    by simp
  show "mset (display_stats table) \<subseteq># mset (filter (\<lambda>r. 5 \<le> risk_score_db r) table)"
    by (rule display_stats_mset)
  show "sorted_wrt (\<lambda>a b. risk_score_db b < risk_score_db a \<or>
                 (risk_score_db b = risk_score_db a \<and>
                  dt_key (timestamp_db b) \<le> dt_key (timestamp_db a)))
     (display_stats table)"
    by (rule display_stats_sorted)
next
  fix e assume "e \<in> set (display_summary logs)"
  then show "5 \<le> risk_score e" by (rule display_summary_risk)
next
  fix r assume "r \<in> set (display_stats table)"
  then show "5 \<le> risk_score_db r" by (rule display_stats_risk)
next
  fix x e
  assume "x \<in> set (display_summary logs)"
    and "e \<in># mset (filter (\<lambda>e. 5 \<le> risk_score e) logs) - mset (display_summary logs)"
  then show "risk_score e \<le> risk_score x" by (rule display_summary_top)
next
  fix x e
  assume "x \<in> set (display_stats table)"
    and "e \<in># mset (filter (\<lambda>r. 5 \<le> risk_score_db r) table) - mset (display_stats table)"
  then show "risk_score_db e < risk_score_db x \<or>
        (risk_score_db e = risk_score_db x \<and>
         dt_key (timestamp_db e) \<le> dt_key (timestamp_db x))"
    by (rule display_stats_top)
next
  assume "mset table' = mset table"
  then show "map (\<lambda>r. (risk_score_db r, dt_key (timestamp_db r))) (display_stats table') =
      map (\<lambda>r. (risk_score_db r, dt_key (timestamp_db r))) (display_stats table)"
    by (rule display_stats_scan_order)
qed

text \<open>
  On the five sample events the console variant lists the three events of score 9 with
  the earliest first, and the database variant with the latest first; both list all five.
\<close>

theorem top5_order_witness:
  "map timestamp (display_summary sample_logs) =
     [''2026-01-21T22:04:31'', ''2026-01-21T22:04:32'', ''2026-01-21T22:04:35'',
      ''2026-01-21T22:04:34'', ''2026-01-21T22:04:33''] \<and>
   map risk_score (display_summary sample_logs) = [9, 9, 9, 8, 7] \<and>
   map (dt_second \<circ> timestamp_db) (display_stats sample_table) = [35, 32, 31, 34, 33] \<and>
   map risk_score_db (display_stats sample_table) = [9, 9, 9, 8, 7] \<and>
   sorted_wrt (\<lambda>a b. risk_score b \<le> risk_score a) (display_summary sample_logs) \<and>
   sorted_wrt (\<lambda>a b. risk_score_db b < risk_score_db a \<or>
                 (risk_score_db b = risk_score_db a \<and>
                  dt_key (timestamp_db b) \<le> dt_key (timestamp_db a)))
     (display_stats sample_table) \<and>
   length (display_summary sample_logs) = 5 \<and>
   length (display_stats sample_table) = 5 \<and>
   mset (rev sample_table) = mset sample_table \<and>
   map (\<lambda>r. (risk_score_db r, dt_key (timestamp_db r))) (display_stats (rev sample_table)) =
   map (\<lambda>r. (risk_score_db r, dt_key (timestamp_db r))) (display_stats sample_table)"
proof -
  have a: "map timestamp (display_summary sample_logs) =
     [''2026-01-21T22:04:31'', ''2026-01-21T22:04:32'', ''2026-01-21T22:04:35'',
      ''2026-01-21T22:04:34'', ''2026-01-21T22:04:33'']"
    by code_simp
  have b: "map risk_score (display_summary sample_logs) = [9, 9, 9, 8, 7]"
    by code_simp
  have c: "map (dt_second \<circ> timestamp_db) (display_stats sample_table) = [35, 32, 31, 34, 33]"
    by code_simp
  have d: "map risk_score_db (display_stats sample_table) = [9, 9, 9, 8, 7]"
    by code_simp
  have n: "min 5 (length (filter (\<lambda>e. 5 \<le> risk_score e) sample_logs)) = 5"
    "min 5 (length (filter (\<lambda>r. 5 \<le> risk_score_db r) sample_table)) = 5"
    by (simp_all add: sample_logs_def sample_event_def sample_table_def sample_row_def)
  have m: "mset (rev sample_table) = mset sample_table"
    by simp
  note t = top5_order [of sample_logs 9 sample_table "rev sample_table"]
  have s: "sorted_wrt (\<lambda>a b. risk_score b \<le> risk_score a) (display_summary sample_logs)"
    "sorted_wrt (\<lambda>a b. risk_score_db b < risk_score_db a \<or>
                 (risk_score_db b = risk_score_db a \<and>
                  dt_key (timestamp_db b) \<le> dt_key (timestamp_db a)))
     (display_stats sample_table)"
    using t by (iprover elim: conjE)+
  have l: "length (display_summary sample_logs) = 5" "length (display_stats sample_table) = 5"
    using t unfolding n by (iprover elim: conjE)+
  have "mset (rev sample_table) = mset sample_table \<longrightarrow>
      map (\<lambda>r. (risk_score_db r, dt_key (timestamp_db r))) (display_stats (rev sample_table)) =
      map (\<lambda>r. (risk_score_db r, dt_key (timestamp_db r))) (display_stats sample_table)"
    using t by (iprover elim: conjE)
  with m have k:
    "map (\<lambda>r. (risk_score_db r, dt_key (timestamp_db r))) (display_stats (rev sample_table)) =
     map (\<lambda>r. (risk_score_db r, dt_key (timestamp_db r))) (display_stats sample_table)"
    by (rule rev_mp)
  show ?thesis
    using a b c d s l m k by (iprover intro: conjI)
qed

text \<open>
  The claim as stated asks for the order latest, second, first among the events of score
  9; \<^verbatim>\<open>display_summary\<close> prints first, second, latest.
\<close>

theorem top5_tie_order_counterexample:
  "map timestamp (display_summary sample_logs) \<noteq>
     [''2026-01-21T22:04:35'', ''2026-01-21T22:04:32'', ''2026-01-21T22:04:31'',
      ''2026-01-21T22:04:34'', ''2026-01-21T22:04:33'']"
  by code_simp

subsection \<open>Time stamps\<close>

lemma char_eq_char_of: "(c = char_of (n::nat)) = (take_bit 8 n = of_char c)"
  using char_of_eq_iff [of n c] by auto

lemmas char_eval = char_of_eq_iff char_eq_char_of take_bit_eq_mod

lemmas engine_eval =
  re_match_def first_match_def seqs_def alts_def lit_def lit_ci_def steps_def advance_def
  close_group_def at_boundary_def is_space_def is_digit_def is_word_def lower_char_def lower_def
  strip_def char_eval

lemma of_char_digit_char: "d < 10 \<Longrightarrow> of_char (digit_char d) = 48 + d"
  by (simp add: digit_char_def take_bit_eq_mod)

lemma is_digit_digit_char: "d < 10 \<Longrightarrow> is_digit (digit_char d)"
  by (simp add: is_digit_def of_char_digit_char)

lemma str_of_nat_digits: "str_of_nat n \<noteq> [] \<and> (\<forall>c \<in> set (str_of_nat n). is_digit c)"
proof (induction n rule: str_of_nat.induct)
  case (1 n)
  show ?case
  proof (cases "n < 10")
    case True
    then show ?thesis
      by (subst (1 2) str_of_nat.simps) (simp add: is_digit_digit_char)
  next
    case False
    then show ?thesis
      using "1.IH" by (subst (1 2) str_of_nat.simps) (simp add: is_digit_digit_char)
  qed
qed

lemma str_of_nat_4:
  assumes "1000 \<le> y" "y \<le> 9999"
  shows "str_of_nat y = [digit_char (y div 1000), digit_char (y div 100 mod 10),
                          digit_char (y div 10 mod 10), digit_char (y mod 10)]"
proof -
  have a: "str_of_nat y = str_of_nat (y div 10) @ [digit_char (y mod 10)]"
    using assms by (subst str_of_nat.simps) simp
  have b: "str_of_nat (y div 10) = str_of_nat (y div 100) @ [digit_char (y div 10 mod 10)]"
    using assms by (subst str_of_nat.simps) (simp add: div_mult2_eq [symmetric])
  have c: "str_of_nat (y div 100) = str_of_nat (y div 1000) @ [digit_char (y div 100 mod 10)]"
    using assms by (subst str_of_nat.simps) (simp add: div_mult2_eq [symmetric])
  have d: "str_of_nat (y div 1000) = [digit_char (y div 1000)]"
    using assms by (subst str_of_nat.simps) simp
  show ?thesis by (simp add: a b c d)
qed

lemma digits_value_snoc: "digits_value (s @ [c]) = 10 * digits_value s + (of_char c - 48)"
  by (simp add: digits_value_def)

lemma digits_value_str_of_nat: "digits_value (str_of_nat n) = n"
proof (induction n rule: str_of_nat.induct)
  case (1 n)
  show ?case
  proof (cases "n < 10")
    case True
    then show ?thesis
      by (subst str_of_nat.simps) (simp add: digits_value_def of_char_digit_char)
  next
    case False
    then have "digits_value (str_of_nat n) = 10 * (n div 10) + n mod 10"
      using "1.IH" by (subst str_of_nat.simps) (simp add: digits_value_snoc of_char_digit_char)
    then show ?thesis by simp
  qed
qed

lemma year_digits:
  assumes "1000 \<le> y" "y \<le> 9999"
  obtains d1 d2 d3 d4 where "str_of_nat y = [d1, d2, d3, d4]"
    "is_digit d1" "is_digit d2" "is_digit d3" "is_digit d4" "digits_value [d1, d2, d3, d4] = y"
proof -
  obtain d1 d2 d3 d4 where s: "str_of_nat y = [d1, d2, d3, d4]"
    using str_of_nat_4 [OF assms] by blast
  have "\<forall>c \<in> set [d1, d2, d3, d4]. is_digit c"
    using str_of_nat_digits [of y] unfolding s by blast
  then have d: "is_digit d1" "is_digit d2" "is_digit d3" "is_digit d4" by simp_all
  have "digits_value [d1, d2, d3, d4] = y"
    using digits_value_str_of_nat [of y] unfolding s .
  with s d show thesis by (rule that)
qed

text \<open>The time stamp of the specification's sample line, read in a year of four digits.\<close>

lemma strptime_jan21_digits:
  assumes "is_digit d1" "is_digit d2" "is_digit d3" "is_digit d4"
  shows "strptime (d1 # d2 # d3 # d4 # '' Jan 21 22:04:35'') =
     (if digits_value [d1, d2, d3, d4] = 0 then Inl ValueError
      else Inr \<lparr>dt_year = digits_value [d1, d2, d3, d4], dt_month = 1, dt_day = 21,
                dt_hour = 22, dt_minute = 4, dt_second = 35\<rparr>)"
  using assms
  by (simp add: strptime_def format_regex_def a_month_def days_in_month_def digits_value_def
      engine_eval)

lemma strptime_jan21:
  assumes "1000 \<le> y" "y \<le> 9999"
  shows "strptime (str_of_nat y @ '' '' @ ''Jan 21 22:04:35'') =
     Inr \<lparr>dt_year = y, dt_month = 1, dt_day = 21, dt_hour = 22, dt_minute = 4, dt_second = 35\<rparr>"
proof -
  from assms obtain d1 d2 d3 d4 where d: "str_of_nat y = [d1, d2, d3, d4]"
    "is_digit d1" "is_digit d2" "is_digit d3" "is_digit d4" "digits_value [d1, d2, d3, d4] = y"
    by (rule year_digits)
  show ?thesis
    using strptime_jan21_digits [OF d(2-5)] d(1,6) assms by simp
qed

text \<open>
  A time stamp whose first word is no month name is refused, whatever the year: the
  pattern of the format cannot match.
\<close>

lemma strptime_no_month_digits:
  assumes "ds \<noteq> []" "\<forall>c \<in> set ds. is_digit c"
  shows "strptime (ds @ '' '' @ ''Foo 99 99:99:99'') = Inl ValueError"
proof -
  consider d1 where "ds = [d1]" | d1 d2 where "ds = [d1, d2]" | d1 d2 d3 where "ds = [d1, d2, d3]"
    | d1 d2 d3 d4 where "ds = [d1, d2, d3, d4]"
    | d1 d2 d3 d4 d5 more where "ds = d1 # d2 # d3 # d4 # d5 # more"
    using assms(1) by (metis list.exhaust)
  then show ?thesis
  proof cases
    case 1
    with assms(2) show ?thesis
      by (simp add: strptime_def format_regex_def a_month_def engine_eval)
  next
    case 2
    with assms(2) show ?thesis
      by (simp add: strptime_def format_regex_def a_month_def engine_eval)
  next
    case 3
    with assms(2) show ?thesis
      by (simp add: strptime_def format_regex_def a_month_def engine_eval)
  next
    case 4
    with assms(2) show ?thesis
      by (simp add: strptime_def format_regex_def a_month_def engine_eval)
  next
    case 5
    with assms(2) show ?thesis
      by (simp add: strptime_def format_regex_def a_month_def engine_eval Let_def)
  qed
qed

lemma strptime_no_month:
  "strptime (str_of_nat y @ '' '' @ ''Foo 99 99:99:99'') = Inl ValueError"
  using str_of_nat_digits [of y] by (intro strptime_no_month_digits) auto

subsection \<open>The sample line\<close>

lemma sample_line_groups:
  "map_option (\<lambda>m. (caps m 1, caps m 2, caps m 3, caps m 4, caps m 5))
     (re_match pattern sample_line) =
   Some (Some ''Jan 21 22:04:35'', Some ''myhost'', Some ''sshd'', Some ''1234'',
         Some sample_message)"
  by code_simp

lemma sample_message_fields:
  "detect_event_type ''sshd'' sample_message = ''INVALID_USER''"
  "extract_user sample_message = ''admin''"
  "extract_ip sample_message = Some ''10.0.0.5''"
  "calculate_risk ''INVALID_USER'' sample_message = 10"
  by code_simp+

lemma sample_message_user_pattern:
  "map_option (\<lambda>m. caps m 1) (re_search (hd user_patterns) sample_message) = Some (Some ''admin'')"
  by code_simp

lemma sample_line_parse:
  assumes "1000 \<le> current_year" and "current_year \<le> 9999"
  shows "parse_log_line current_year sample_line =
     Inr (Some \<lparr>timestamp = isoformat \<lparr>dt_year = current_year, dt_month = 1, dt_day = 21,
                                        dt_hour = 22, dt_minute = 4, dt_second = 35\<rparr>,
                hostname = ''myhost'', process = ''sshd'', pid = Some ''1234'',
                event_type = ''INVALID_USER'', user = ''admin'',
                ip_address = Some ''10.0.0.5'', message = sample_message, risk_score = 10,
                raw_log = sample_line\<rparr>)"
proof -
  from sample_line_groups obtain m where m: "re_match pattern sample_line = Some m"
    "caps m (Suc 0) = Some ''Jan 21 22:04:35''" "caps m 2 = Some ''myhost''" "caps m 3 = Some ''sshd''"
    "caps m 4 = Some ''1234''" "caps m 5 = Some sample_message"
    by (cases "re_match pattern sample_line") auto
  show ?thesis
    using strptime_jan21 [OF assms]
    by (simp add: parse_log_line_def m sample_message_fields)
qed

text \<open>
  Claim C7. In any year of four digits the console variant's \<^verbatim>\<open>parse_log_line\<close> turns the
  line
  \<^verbatim>\<open>Jan 21 22:04:35 myhost sshd[1234]: Failed password for invalid user admin from 10.0.0.5 port 22 ssh2\<close>
  into a record with the event type INVALID_USER, the user "admin" (captured by the first
  pattern, "user <name>"), the address "10.0.0.5" and the risk score 10.
\<close>

theorem sample_line_record:
  assumes "1000 \<le> current_year" and "current_year \<le> 9999"
  shows "parse_log_line current_year sample_line =
     Inr (Some \<lparr>timestamp = isoformat \<lparr>dt_year = current_year, dt_month = 1, dt_day = 21,
                                        dt_hour = 22, dt_minute = 4, dt_second = 35\<rparr>,
                hostname = ''myhost'', process = ''sshd'', pid = Some ''1234'',
                event_type = ''INVALID_USER'', user = ''admin'',
                ip_address = Some ''10.0.0.5'', message = sample_message, risk_score = 10,
                raw_log = sample_line\<rparr>) \<and>
   map_option (\<lambda>m. caps m 1) (re_search (hd user_patterns) sample_message) = Some (Some ''admin'')"
  using sample_line_parse [OF assms] sample_message_user_pattern by (rule conjI)

theorem sample_line_record_witness:
  "parse_log_line 2026 sample_line =
     Inr (Some \<lparr>timestamp = ''2026-01-21T22:04:35'',
                hostname = ''myhost'', process = ''sshd'', pid = Some ''1234'',
                event_type = ''INVALID_USER'', user = ''admin'',
                ip_address = Some ''10.0.0.5'', message = sample_message, risk_score = 10,
                raw_log = sample_line\<rparr>)"
proof -
  have iso: "isoformat \<lparr>dt_year = 2026, dt_month = 1, dt_day = 21,
                        dt_hour = 22, dt_minute = 4, dt_second = 35\<rparr> = ''2026-01-21T22:04:35''"
    by code_simp
  have "(1000::nat) \<le> 2026" and "(2026::nat) \<le> 9999" by simp_all
  from sample_line_record [OF this] show ?thesis
    by (simp only: iso)
qed

subsection \<open>A time stamp that is no date\<close>

lemma bad_line_groups:
  "map_option (\<lambda>m. caps m 1) (re_match pattern bad_line) = Some (Some ''Foo 99 99:99:99'')"
  by code_simp

lemma bad_line_not_blank: "strip bad_line \<noteq> []"
  by code_simp

text \<open>
  Claim C3 fails on the code. The line \<^verbatim>\<open>Foo 99 99:99:99 host proc: text\<close> matches the
  pattern of \<^verbatim>\<open>parse_log_line\<close>, so the method goes on to \<^verbatim>\<open>strptime\<close>, which raises
  \<^verbatim>\<open>ValueError\<close> for the time stamp; nothing catches it, in either variant and whatever
  the current year.
\<close>

theorem bad_line_raises:
  "parse_log_line current_year bad_line = Inl ValueError \<and>
   parse_log_line_db max_str_digits current_year bad_line = Inl ValueError"
proof -
  from bad_line_groups obtain m where m: "re_match pattern bad_line = Some m"
    "caps m (Suc 0) = Some ''Foo 99 99:99:99''"
    by (cases "re_match pattern bad_line") auto
  show ?thesis
    using strptime_no_month [of current_year]
    by (simp add: parse_log_line_def parse_log_line_db_def pattern_db_eq m)
qed

lemma collect_loop_raises:
  "collect_loop current_year (before @ bad_line # after) parsed_logs = Inl ValueError"
proof (induction before arbitrary: parsed_logs)
  case Nil
  have "parse_log_line current_year bad_line = Inl ValueError"
  proof -
    from bad_line_groups obtain m where m: "re_match pattern bad_line = Some m"
      "caps m (Suc 0) = Some ''Foo 99 99:99:99''"
      by (cases "re_match pattern bad_line") auto
    show ?thesis
      using strptime_no_month [of current_year] by (simp add: parse_log_line_def m)
  qed
  then show ?case by (simp add: bad_line_not_blank)
next
  case (Cons line before)
  show ?case
  proof (cases "parse_log_line current_year line")
    case (Inl e)
    then show ?thesis using Cons.IH by (cases e) simp
  next
    case (Inr result)
    then show ?thesis using Cons.IH by (cases result) simp_all
  qed
qed

text \<open>
  Claim C6 fails on the code, by the defect of claim C3: a batch that holds the line
  \<^verbatim>\<open>Foo 99 99:99:99 host proc: text\<close>, which is not blank and has the shape of the
  pattern, yields no records at all, because \<^verbatim>\<open>collect\<close> ends with the
  \<^verbatim>\<open>ValueError\<close> of that line.
\<close>

theorem collect_raises:
  "collect current_year (before @ bad_line # after) = Inl ValueError"
  unfolding collect_def by (rule collect_loop_raises)

subsection \<open>Searching for a name\<close>

lemma runs_Nil_iff: "runs k xs = [] \<longleftrightarrow> takeWhile (cmatch k) xs = []"
  by (cases xs) auto

lemma runs_last:
  "runs k xs \<noteq> [] \<Longrightarrow>
     last (runs k xs) = (last (takeWhile (cmatch k) xs), dropWhile (cmatch k) xs)"
proof (induction xs)
  case Nil
  then show ?case by simp
next
  case (Cons x xs)
  then show ?case by (cases xs) (auto split: if_splits)
qed

lemma runs_rest:
  "(x, ys) \<in> set (runs k xs) \<Longrightarrow>
     ys = dropWhile (cmatch k) xs \<or> (\<exists>y ys'. ys = y # ys' \<and> cmatch k y)"
proof (induction xs)
  case Nil
  then show ?case by simp
next
  case (Cons a xs)
  then show ?case by (cases xs) (auto split: if_splits)
qed

lemma take_length_dropWhile:
  "take (length xs - length (dropWhile P xs)) xs = takeWhile P xs"
proof -
  have "length xs - length (dropWhile P xs) = length (takeWhile P xs)"
    by (metis add_diff_cancel_right' length_append takeWhile_dropWhile_id)
  then show ?thesis
    by (metis append_eq_conv_conj takeWhile_dropWhile_id)
qed

lemma lit_Nil: "lit [] = Eps"
  by (simp add: lit_def seqs_def)

lemma lit_Cons: "lit (c # cs) = Seq (Cls (Lit c)) (lit cs)"
  by (simp add: lit_def seqs_def)

lemma rmatch_lit:
  "rmatch (lit w) st =
     (if prefix w (rest st)
      then [MS (if w = [] then prev st else Some (last w)) (drop (length w) (rest st))
               (caps st) (lastindex st)]
      else [])"
proof (induction w arbitrary: st)
  case Nil
  then show ?case by (cases st) (simp add: lit_Nil)
next
  case (Cons c cs)
  show ?case
  proof (cases "rest st")
    case Nil
    then show ?thesis by (simp add: lit_Cons steps_def)
  next
    case (Cons x xs)
    then show ?thesis
      using Cons.IH by (auto simp: lit_Cons steps_def advance_def)
  qed
qed

lemma steps_Nil_iff: "steps k st = [] \<longleftrightarrow> takeWhile (cmatch k) (rest st) = []"
  by (simp add: steps_def runs_Nil_iff)

lemma steps_last:
  assumes "takeWhile (cmatch k) (rest st) \<noteq> []"
  shows "last (steps k st) =
     MS (Some (last (takeWhile (cmatch k) (rest st)))) (dropWhile (cmatch k) (rest st))
        (caps st) (lastindex st)"
proof -
  from assms have ne: "runs k (rest st) \<noteq> []" by (simp add: runs_Nil_iff)
  then show ?thesis
    by (simp add: steps_def last_map runs_last advance_def)
qed

lemma cmatch_Word: "cmatch Word = is_word"
  by (simp add: fun_eq_iff)

lemma cmatch_Digit: "cmatch Digit = is_digit"
  by (simp add: fun_eq_iff)

lemma concat_rmatch_Eps: "concat (map (rmatch Eps \<circ> f) xs) = map f xs"
  by (induction xs) simp_all

lemma first_of_rev:
  "xs \<noteq> [] \<Longrightarrow> (case map f (rev xs) of [] \<Rightarrow> None | m # _ \<Rightarrow> Some m) = Some (f (last xs))"
  by (cases xs rule: rev_cases) simp_all

lemma first_match_name:
  assumes "key \<noteq> []" and "n \<noteq> 0"
  shows "first_match (seqs [lit key, Group n (Plus Word)]) (MS p s Map.empty None) =
     (if prefix key s \<and> takeWhile is_word (drop (length key) s) \<noteq> []
      then Some (close_group 0 (MS p s Map.empty None)
                  (MS (Some (last (takeWhile is_word (drop (length key) s))))
                      (dropWhile is_word (drop (length key) s))
                      [n \<mapsto> takeWhile is_word (drop (length key) s)] (Some n)))
      else None)"
proof -
  let ?st = "MS p s Map.empty None"
  let ?s1 = "MS (Some (last key)) (drop (length key) s) Map.empty None"
  let ?run = "takeWhile is_word (drop (length key) s)"
  have all: "rmatch (Group 0 (seqs [lit key, Group n (Plus Word)])) ?st =
      (if prefix key s
       then map (close_group 0 ?st \<circ> close_group n ?s1) (rev (steps Word ?s1))
       else [])"
    using assms by (simp add: seqs_def rmatch_lit concat_rmatch_Eps)
  show ?thesis
  proof (cases "prefix key s \<and> ?run \<noteq> []")
    case False
    then have "rmatch (Group 0 (seqs [lit key, Group n (Plus Word)])) ?st = []"
      unfolding all using steps_Nil_iff [of Word ?s1] by (auto simp: cmatch_Word)
    with False show ?thesis by (simp add: first_match_def)
  next
    case True
    then have run: "takeWhile (cmatch Word) (rest ?s1) \<noteq> []"
      by (simp add: cmatch_Word)
    then have ne: "steps Word ?s1 \<noteq> []" by (simp add: steps_Nil_iff)
    have l: "last (steps Word ?s1) =
        MS (Some (last ?run)) (dropWhile is_word (drop (length key) s)) Map.empty None"
      using steps_last [OF run] by (simp add: cmatch_Word)
    have "first_match (seqs [lit key, Group n (Plus Word)]) ?st =
        Some (close_group 0 ?st (close_group n ?s1 (last (steps Word ?s1))))"
      unfolding first_match_def all
      using True first_of_rev [OF ne, of "close_group 0 ?st \<circ> close_group n ?s1"]
      by simp
    also have "close_group n ?s1 (last (steps Word ?s1)) =
        MS (Some (last ?run)) (dropWhile is_word (drop (length key) s)) [n \<mapsto> ?run] (Some n)"
      unfolding l using assms(2)
      by (simp add: close_group_def take_length_dropWhile del: length_drop)
    finally show ?thesis using True by simp
  qed
qed

lemma search_name:
  assumes "key \<noteq> []" and "n \<noteq> 0"
  shows "case name_after key s of
           None \<Rightarrow> search_from (seqs [lit key, Group n (Plus Word)]) p s = None
         | Some name \<Rightarrow> \<exists>m. search_from (seqs [lit key, Group n (Plus Word)]) p s = Some m \<and>
                         caps m n = Some name \<and> lastindex m = Some n"
proof (induction s arbitrary: p)
  case Nil
  show ?case using assms by (simp add: first_match_name)
next
  case (Cons x xs)
  show ?case
  proof (cases "prefix key (x # xs) \<and> takeWhile is_word (drop (length key) (x # xs)) \<noteq> []")
    case True
    then show ?thesis
      using assms(2) by (simp add: first_match_name [OF assms] close_group_def)
  next
    case False
    have fm: "first_match (seqs [lit key, Group n (Plus Word)]) (MS p (x # xs) Map.empty None) = None"
      using False by (simp add: first_match_name [OF assms])
    have na: "name_after key (x # xs) = name_after key xs"
      using False by auto
    have sf: "search_from (seqs [lit key, Group n (Plus Word)]) p (x # xs) =
        search_from (seqs [lit key, Group n (Plus Word)]) (Some x) xs"
      by (simp add: fm)
    show ?thesis
      unfolding na sf by (rule Cons.IH)
  qed
qed

lemma re_search_name:
  assumes "key \<noteq> []" and "n \<noteq> 0"
  shows "name_after key s = None \<Longrightarrow> re_search (seqs [lit key, Group n (Plus Word)]) s = None"
    and "name_after key s = Some name \<Longrightarrow>
           \<exists>m. re_search (seqs [lit key, Group n (Plus Word)]) s = Some m \<and>
               caps m n = Some name \<and> lastindex m = Some n"
  using search_name [OF assms, where s = s and p = None] by (simp_all add: re_search_def)

lemma rmatch_lastindex_frame:
  "groups_of r \<subseteq> {0} \<Longrightarrow> st' \<in> set (rmatch r st) \<Longrightarrow> lastindex st' = lastindex st"
proof (induction r arbitrary: st st')
  case (Seq a b)
  then show ?case by fastforce
next
  case (Group k r)
  then show ?case by (auto simp: close_group_def)
next
  case (Cls k)
  then show ?case using rmatch_class_cases [OF Cls(2), of k] steps_rest by fastforce
next
  case (Plus k)
  then show ?case using rmatch_class_cases [OF Plus(2), of k] steps_rest by fastforce
next
  case (LazyPlus k)
  then show ?case using rmatch_class_cases [OF LazyPlus(2), of k] steps_rest by fastforce
next
  case (Rep k lo hi)
  then show ?case using rmatch_class_cases [OF Rep(2), of k lo hi] steps_rest by fastforce
qed (auto split: if_splits)

lemma search_from_first_match:
  "search_from r p s = Some m \<Longrightarrow> \<exists>p' s'. first_match r (MS p' s' Map.empty None) = Some m"
proof (induction s arbitrary: p)
  case Nil
  then show ?case by auto
next
  case (Cons x xs)
  then show ?case
    by (cases "first_match r (MS p (x # xs) Map.empty None)") auto
qed

lemma re_search_no_groups:
  assumes "groups_of r \<subseteq> {0}" and "re_search r s = Some m"
  shows "lastindex m = None"
proof -
  from assms(2) obtain p' s' where "first_match r (MS p' s' Map.empty None) = Some m"
    unfolding re_search_def by (blast dest: search_from_first_match)
  then have "m \<in> set (rmatch (Group 0 r) (MS p' s' Map.empty None))"
    by (rule first_match_in)
  moreover have "groups_of (Group 0 r) \<subseteq> {0}" using assms(1) by simp
  ultimately have "lastindex m = lastindex (MS p' s' Map.empty None)"
    by (rule rmatch_lastindex_frame [rotated])
  then show ?thesis by simp
qed

lemma groups_of_lit: "groups_of (lit w) = {}"
  by (induction w) (simp_all add: lit_Nil lit_Cons)

lemma rmatch_Cls_Lit: "rmatch (Cls (Lit c)) st \<noteq> [] \<longleftrightarrow> prefix [c] (rest st)"
  by (cases "rest st") (auto simp: steps_def)

lemma steps_followed_by:
  assumes "\<not> cmatch k c"
  shows "(\<exists>st' \<in> set (steps k st). prefix [c] (rest st')) \<longleftrightarrow>
         takeWhile (cmatch k) (rest st) \<noteq> [] \<and> prefix [c] (dropWhile (cmatch k) (rest st))"
proof
  assume "\<exists>st' \<in> set (steps k st). prefix [c] (rest st')"
  then obtain x ys where in_runs: "(x, ys) \<in> set (runs k (rest st))" and c: "prefix [c] ys"
    by (auto simp: steps_def advance_def)
  from in_runs have "runs k (rest st) \<noteq> []" by auto
  then have ne: "takeWhile (cmatch k) (rest st) \<noteq> []" by (simp add: runs_Nil_iff)
  from runs_rest [OF in_runs] c assms have "ys = dropWhile (cmatch k) (rest st)"
    by auto
  with ne c show "takeWhile (cmatch k) (rest st) \<noteq> [] \<and> prefix [c] (dropWhile (cmatch k) (rest st))"
    by simp
next
  assume a: "takeWhile (cmatch k) (rest st) \<noteq> [] \<and> prefix [c] (dropWhile (cmatch k) (rest st))"
  then have ne: "steps k st \<noteq> []" by (simp add: steps_Nil_iff)
  then have "last (steps k st) \<in> set (steps k st)" by simp
  moreover have "rest (last (steps k st)) = dropWhile (cmatch k) (rest st)"
    using a by (simp add: steps_last)
  ultimately show "\<exists>st' \<in> set (steps k st). prefix [c] (rest st')"
    using a by (intro bexI [of _ "last (steps k st)"]) simp_all
qed

lemma first_match_marker:
  assumes "key \<noteq> []" and "\<not> is_digit c"
  shows "first_match (seqs [lit key, Plus Digit, Cls (Lit c)]) (MS p s Map.empty None) \<noteq> None \<longleftrightarrow>
         prefix key s \<and> takeWhile is_digit (drop (length key) s) \<noteq> [] \<and>
         prefix [c] (dropWhile is_digit (drop (length key) s))"
proof -
  let ?st = "MS p s Map.empty None"
  let ?s1 = "MS (Some (last key)) (drop (length key) s) Map.empty None"
  have "first_match (seqs [lit key, Plus Digit, Cls (Lit c)]) ?st \<noteq> None \<longleftrightarrow>
      rmatch (Group 0 (seqs [lit key, Plus Digit, Cls (Lit c)])) ?st \<noteq> []"
    unfolding first_match_def
    by (cases "rmatch (Group 0 (seqs [lit key, Plus Digit, Cls (Lit c)])) ?st") simp_all
  also have "\<dots> \<longleftrightarrow> prefix key s \<and> (\<exists>st' \<in> set (steps Digit ?s1). rmatch (Cls (Lit c)) st' \<noteq> [])"
    using assms(1) by (auto simp: seqs_def rmatch_lit simp del: rmatch.simps(1))
  also have "\<dots> \<longleftrightarrow> prefix key s \<and> (\<exists>st' \<in> set (steps Digit ?s1). prefix [c] (rest st'))"
    by (simp only: rmatch_Cls_Lit)
  also have "\<dots> \<longleftrightarrow> prefix key s \<and> takeWhile is_digit (drop (length key) s) \<noteq> [] \<and>
         prefix [c] (dropWhile is_digit (drop (length key) s))"
    using steps_followed_by [of Digit c ?s1] assms(2) by (simp add: cmatch_Digit)
  finally show ?thesis .
qed

lemma search_marker:
  "search_from (seqs [lit ''by (uid='', Plus Digit, Cls (Lit CHR '')'')]) p s \<noteq> None \<longleftrightarrow>
     uid_marker s"
proof (induction s arbitrary: p)
  case Nil
  show ?case
    using first_match_marker [of "''by (uid=''" "CHR '')''" p "[]"]
    by (simp add: is_digit_def)
next
  case (Cons x xs)
  let ?R = "seqs [lit ''by (uid='', Plus Digit, Cls (Lit CHR '')'')]"
  let ?here = "prefix ''by (uid='' (x # xs) \<and> takeWhile is_digit (drop 8 (x # xs)) \<noteq> [] \<and>
      prefix '')'' (dropWhile is_digit (drop 8 (x # xs)))"
  have len: "length ''by (uid='' = 8" by simp
  have nd: "\<not> is_digit CHR '')''" by (simp add: is_digit_def)
  have ne: "''by (uid='' \<noteq> []" by simp
  have fm: "first_match ?R (MS p (x # xs) Map.empty None) \<noteq> None \<longleftrightarrow> ?here"
    using first_match_marker [OF ne nd, of p "x # xs"] unfolding len .
  have um: "uid_marker (x # xs) \<longleftrightarrow> ?here \<or> uid_marker xs"
    by (simp only: uid_marker.simps)
  show ?case
  proof (cases "first_match ?R (MS p (x # xs) Map.empty None)")
    case None
    then have sf: "search_from ?R p (x # xs) = search_from ?R (Some x) xs"
      by simp
    from None fm have "\<not> ?here" by blast
    with um have "uid_marker (x # xs) \<longleftrightarrow> uid_marker xs" by blast
    then show ?thesis
      unfolding sf using Cons.IH [of "Some x"] by blast
  next
    case (Some m)
    then have sf: "search_from ?R p (x # xs) = Some m"
      by simp
    from Some fm have "?here" by blast
    with um have "uid_marker (x # xs)" by blast
    then show ?thesis
      unfolding sf by simp
  qed
qed

lemma extract_user_db_spec:
  "extract_user_db msg =
     (case name_after ''user '' msg of
        Some name \<Rightarrow> name
      | None \<Rightarrow>
          (case name_after ''for '' msg of
             Some name \<Rightarrow> name
           | None \<Rightarrow> if contains_ci ''root'' msg then ''root'' else ''unknown''))"
proof -
  define R1 where "R1 = seqs [lit ''user '', Group 1 (Plus Word)]"
  define R2 where "R2 = seqs [lit ''for '', Group 1 (Plus Word)]"
  have pats: "user_patterns_db = [R1, R2]"
    by (simp add: user_patterns_db_def R1_def R2_def)
  note r1 = re_search_name [of "''user ''" 1 msg, folded R1_def]
  note r2 = re_search_name [of "''for ''" 1 msg, folded R2_def]
  show ?thesis
  proof (cases "name_after ''user '' msg")
    case (Some name)
    with r1(2) obtain m where "re_search R1 msg = Some m" "caps m 1 = Some name" by auto
    with Some show ?thesis by (simp add: extract_user_db_def pats)
  next
    case None
    with r1(1) have n1: "re_search R1 msg = None" by simp
    show ?thesis
    proof (cases "name_after ''for '' msg")
      case (Some name)
      with r2(2) obtain m where "re_search R2 msg = Some m" "caps m 1 = Some name" by auto
      with Some None n1 show ?thesis by (simp add: extract_user_db_def pats)
    next
      case n: None
      with r2(1) have "re_search R2 msg = None" by simp
      with n None n1 show ?thesis
        by (simp add: extract_user_db_def pats contains_ci_code)
    qed
  qed
qed

lemma extract_user_spec:
  "extract_user msg =
     (case name_after ''user '' msg of
        Some name \<Rightarrow> name
      | None \<Rightarrow>
          (case name_after ''for '' msg of
             Some name \<Rightarrow> name
           | None \<Rightarrow> if uid_marker msg then ''root'' else ''unknown''))"
proof -
  define R1 where "R1 = seqs [lit ''user '', Group 1 (Plus Word)]"
  define R2 where "R2 = seqs [lit ''for '', Group 1 (Plus Word)]"
  define R3 where "R3 = seqs [lit ''by (uid='', Plus Digit, Cls (Lit CHR '')'')]"
  have pats: "user_patterns = [R1, R2, R3]"
    by (simp add: user_patterns_def R1_def R2_def R3_def)
  note r1 = re_search_name [of "''user ''" 1 msg, folded R1_def]
  note r2 = re_search_name [of "''for ''" 1 msg, folded R2_def]
  have g3: "groups_of R3 \<subseteq> {0}"
    by (simp add: R3_def seqs_def groups_of_lit)
  have r3: "re_search R3 msg \<noteq> None \<longleftrightarrow> uid_marker msg"
    unfolding R3_def re_search_def by (rule search_marker)
  have third: "extract_user_loop [R3] msg = (if uid_marker msg then ''root'' else ''unknown'')"
  proof (cases "re_search R3 msg")
    case None
    with r3 show ?thesis by simp
  next
    case (Some m)
    with g3 have "lastindex m = None" by (rule re_search_no_groups)
    with Some r3 show ?thesis by simp
  qed
  show ?thesis
  proof (cases "name_after ''user '' msg")
    case (Some name)
    with r1(2) obtain m where "re_search R1 msg = Some m" "caps m 1 = Some name"
      "lastindex m = Some 1" by auto
    with Some show ?thesis by (simp add: extract_user_def pats)
  next
    case None
    with r1(1) have n1: "re_search R1 msg = None" by simp
    show ?thesis
    proof (cases "name_after ''for '' msg")
      case (Some name)
      with r2(2) obtain m where "re_search R2 msg = Some m" "caps m 1 = Some name"
        "lastindex m = Some 1" by auto
      with Some None n1 show ?thesis by (simp add: extract_user_def pats)
    next
      case n: None
      with r2(1) have "re_search R2 msg = None" by simp
      with n None n1 third show ?thesis
        by (simp add: extract_user_def pats)
    qed
  qed
qed

subsection \<open>User extraction\<close>

text \<open>
  Claim C5, as the code has it. Both variants of \<^verbatim>\<open>_extract_user\<close> return the name after
  the leftmost "user " that a word character follows; if there is none, the name after
  the leftmost such "for "; the first pattern wins even when "for <name>" stands earlier in
  the message. When neither phrase occurs the variants differ: the database variant
  returns "root" if the message contains "root" in any letter case and "unknown"
  otherwise; the console variant returns "root" if the message holds the text
  \<^verbatim>\<open>by (uid=<digits>)\<close> and "unknown" otherwise, and never looks for the word "root".
\<close>

theorem extract_user_order:
  "extract_user_db msg =
     (case name_after ''user '' msg of
        Some name \<Rightarrow> name
      | None \<Rightarrow>
          (case name_after ''for '' msg of
             Some name \<Rightarrow> name
           | None \<Rightarrow> if contains_ci ''root'' msg then ''root'' else ''unknown'')) \<and>
   extract_user msg =
     (case name_after ''user '' msg of
        Some name \<Rightarrow> name
      | None \<Rightarrow>
          (case name_after ''for '' msg of
             Some name \<Rightarrow> name
           | None \<Rightarrow> if uid_marker msg then ''root'' else ''unknown''))"
  using extract_user_db_spec extract_user_spec by (rule conjI)

lemma name_after_samples:
  "name_after ''user '' ''Accepted password for alice from user bob'' = Some ''bob''"
  "name_after ''user '' ''session opened by (uid=0)'' = None"
  "name_after ''for '' ''session opened by (uid=0)'' = None"
  "uid_marker ''session opened by (uid=0)''"
  "\<not> contains_ci ''root'' ''session opened by (uid=0)''"
  by code_simp+

theorem extract_user_order_witness:
  "extract_user_db ''Accepted password for alice from user bob'' = ''bob'' \<and>
   extract_user ''Accepted password for alice from user bob'' = ''bob'' \<and>
   extract_user_db ''session opened by (uid=0)'' = ''unknown'' \<and>
   extract_user ''session opened by (uid=0)'' = ''root''"
  using extract_user_order [of "''Accepted password for alice from user bob''"]
    extract_user_order [of "''session opened by (uid=0)''"]
  by (simp only: name_after_samples option.case if_True if_False simp_thms)

text \<open>
  The message of the cron line matches neither "user <name>" nor "for <name>" and
  contains "root"; the claim as stated gives "root", the console variant "unknown".
\<close>

theorem extract_user_root_counterexample:
  "re_search (user_patterns ! 0) ''(root) CMD (run-parts)'' = None \<and>
   re_search (user_patterns ! 1) ''(root) CMD (run-parts)'' = None \<and>
   contains ''root'' (lower ''(root) CMD (run-parts)'') \<and>
   extract_user ''(root) CMD (run-parts)'' = ''unknown''"
  by code_simp

subsection \<open>The two variants\<close>

lemma extract_ip_db_eq: "extract_ip_db msg = extract_ip msg"
  by (simp add: extract_ip_db_def extract_ip_def ip_pattern_db_def ip_pattern_def)

lemma named_user_agrees:
  assumes "name_after ''user '' msg \<noteq> None \<or> name_after ''for '' msg \<noteq> None"
  shows "extract_user_db msg = extract_user msg"
  using assms unfolding extract_user_db_spec extract_user_spec
  by (auto split: option.splits)

lemma variants_no_match:
  "parse_log_line current_year line = Inr None \<longleftrightarrow>
   parse_log_line_db max_str_digits current_year line = Inr None"
proof (cases "re_match pattern line")
  case None
  then show ?thesis by (simp add: no_match_no_record)
next
  case (Some m)
  show ?thesis
  proof (cases "strptime (str_of_nat current_year @ '' '' @ the (caps m 1))")
    case (Inl e)
    with Some show ?thesis
      by (simp add: parse_log_line_def parse_log_line_db_def pattern_db_eq)
  next
    case (Inr ts)
    with Some show ?thesis
      by (simp add: parse_log_line_def parse_log_line_db_def pattern_db_eq Let_def
          split: option.splits sum.splits)
  qed
qed

lemma variants_error:
  assumes "parse_log_line current_year line = Inl ValueError"
  shows "parse_log_line_db max_str_digits current_year line = Inl ValueError"
proof (cases "re_match pattern line")
  case None
  with assms show ?thesis by (simp add: parse_log_line_def)
next
  case (Some m)
  show ?thesis
  proof (cases "strptime (str_of_nat current_year @ '' '' @ the (caps m 1))")
    case (Inl e)
    with Some show ?thesis
      by (cases e) (simp add: parse_log_line_db_def pattern_db_eq)
  next
    case (Inr ts)
    with Some assms show ?thesis
      by (simp add: parse_log_line_def Let_def)
  qed
qed

lemma variants_row:
  assumes "parse_log_line_db max_str_digits current_year line = Inr (Some row)"
  shows "\<exists>r. parse_log_line current_year line = Inr (Some r) \<and>
           timestamp r = isoformat (timestamp_db row) \<and> hostname r = hostname_db row \<and>
           process r = process_db row \<and> message r = message_db row \<and>
           raw_log r = raw_log_db row \<and> event_type r = event_type_db row \<and>
           ip_address r = ip_address_db row \<and> risk_score r = risk_score_db row \<and>
           user r = extract_user (message r) \<and> user_name row = extract_user_db (message r)"
proof -
  from parse_log_line_db_record [OF assms] obtain m ts where m:
    "re_match pattern line = Some m"
    "strptime (str_of_nat current_year @ '' '' @ the (caps m 1)) = Inr ts"
    "timestamp_db row = ts" "hostname_db row = the (caps m 2)" "process_db row = the (caps m 3)"
    "event_type_db row = detect_event_type_db (the (caps m 3)) (the (caps m 5))"
    "user_name row = extract_user_db (the (caps m 5))"
    "ip_address_db row = extract_ip_db (the (caps m 5))"
    "message_db row = the (caps m 5)"
    "risk_score_db row =
       calculate_risk_db (detect_event_type_db (the (caps m 3)) (the (caps m 5))) (the (caps m 5))"
    "raw_log_db row = line"
    by blast
  show ?thesis
    using m
    by (simp add: parse_log_line_def Let_def detect_event_type_db_eq calculate_risk_db_eq
        extract_ip_db_eq)
qed

lemma variants_record:
  assumes "parse_log_line current_year line = Inr (Some r)"
  shows "(\<exists>row. parse_log_line_db max_str_digits current_year line = Inr (Some row)) \<or>
         (\<exists>p. pid r = Some p \<and> max_str_digits \<noteq> 0 \<and> max_str_digits < length p \<and>
              parse_log_line_db max_str_digits current_year line = Inl ValueError)"
proof -
  from parse_log_line_record [OF assms] obtain m ts where m:
    "re_match pattern line = Some m"
    "strptime (str_of_nat current_year @ '' '' @ the (caps m 1)) = Inr ts"
    "pid r = caps m 4"
    by fastforce
  show ?thesis
  proof (cases "caps m 4")
    case None
    with m show ?thesis
      by (simp add: parse_log_line_db_def pattern_db_eq Let_def)
  next
    case (Some p)
    with m show ?thesis
      by (simp add: parse_log_line_db_def pattern_db_eq Let_def py_int_def)
  qed
qed
text \<open>
  Claim C9, as the code has it. For every line the two variants of \<^verbatim>\<open>parse_log_line\<close>
  return \<^verbatim>\<open>None\<close> together, and the database variant raises whenever the console variant
  does. Every row of the database variant has a console record with the same event type,
  address and risk score, and with the same user whenever "user <name>" or "for <name>"
  occurs in the message (otherwise the user fields come from the two different fallbacks
  of claim C5). Every console record has a row, unless its process id has more digits
  than the interpreter's limit for \<^verbatim>\<open>int\<close>, in which case the database variant raises.
\<close>

theorem variants_agree:
  "(parse_log_line current_year line = Inr None \<longleftrightarrow>
      parse_log_line_db max_str_digits current_year line = Inr None) \<and>
   (parse_log_line current_year line = Inl ValueError \<longrightarrow>
      parse_log_line_db max_str_digits current_year line = Inl ValueError) \<and>
   (\<forall>row. parse_log_line_db max_str_digits current_year line = Inr (Some row) \<longrightarrow>
      (\<exists>r. parse_log_line current_year line = Inr (Some r) \<and>
           event_type r = event_type_db row \<and> ip_address r = ip_address_db row \<and>
           risk_score r = risk_score_db row \<and>
           user r = extract_user (message r) \<and> user_name row = extract_user_db (message r) \<and>
           (name_after ''user '' (message r) \<noteq> None \<or> name_after ''for '' (message r) \<noteq> None
              \<longrightarrow> user r = user_name row))) \<and>
   (\<forall>r. parse_log_line current_year line = Inr (Some r) \<longrightarrow>
      (\<exists>row. parse_log_line_db max_str_digits current_year line = Inr (Some row)) \<or>
      (\<exists>p. pid r = Some p \<and> max_str_digits \<noteq> 0 \<and> max_str_digits < length p \<and>
           parse_log_line_db max_str_digits current_year line = Inl ValueError))"
proof (intro conjI allI impI)
  show "parse_log_line current_year line = Inr None \<longleftrightarrow>
      parse_log_line_db max_str_digits current_year line = Inr None"
    by (rule variants_no_match)
next
  assume "parse_log_line current_year line = Inl ValueError"
  then show "parse_log_line_db max_str_digits current_year line = Inl ValueError"
    by (rule variants_error)
next
  fix row
  assume "parse_log_line_db max_str_digits current_year line = Inr (Some row)"
  from variants_row [OF this] obtain r where r:
    "parse_log_line current_year line = Inr (Some r)"
    "event_type r = event_type_db row" "ip_address r = ip_address_db row"
    "risk_score r = risk_score_db row"
    "user r = extract_user (message r)" "user_name row = extract_user_db (message r)"
    by blast
  have "name_after ''user '' (message r) \<noteq> None \<or> name_after ''for '' (message r) \<noteq> None
      \<longrightarrow> user r = user_name row"
    using named_user_agrees [of "message r"] r(5,6) by simp
  with r show "\<exists>r. parse_log_line current_year line = Inr (Some r) \<and>
           event_type r = event_type_db row \<and> ip_address r = ip_address_db row \<and>
           risk_score r = risk_score_db row \<and>
           user r = extract_user (message r) \<and> user_name row = extract_user_db (message r) \<and>
           (name_after ''user '' (message r) \<noteq> None \<or> name_after ''for '' (message r) \<noteq> None
              \<longrightarrow> user r = user_name row)"
    by blast
next
  fix r
  assume "parse_log_line current_year line = Inr (Some r)"
  then show "(\<exists>row. parse_log_line_db max_str_digits current_year line = Inr (Some row)) \<or>
      (\<exists>p. pid r = Some p \<and> max_str_digits \<noteq> 0 \<and> max_str_digits < length p \<and>
           parse_log_line_db max_str_digits current_year line = Inl ValueError)"
    by (rule variants_record)
qed

lemma sample_line_row: "parse_log_line_db 4300 2026 sample_line = Inr (Some sample_row_2026)"
  by code_simp

lemma sample_message_name: "name_after ''user '' sample_message = Some ''admin''"
  by code_simp

theorem variants_agree_witness:
  "parse_log_line_db 4300 2026 sample_line = Inr (Some sample_row_2026) \<and>
   name_after ''user '' sample_message = Some ''admin'' \<and>
   map_sum id (map_option (\<lambda>r. (event_type r, ip_address r, risk_score r, user r)))
     (parse_log_line 2026 sample_line) =
   Inr (Some (event_type_db sample_row_2026, ip_address_db sample_row_2026,
              risk_score_db sample_row_2026, user_name sample_row_2026))"
proof -
  have y: "(1000::nat) \<le> 2026" "(2026::nat) \<le> 9999" by simp_all
  note p = sample_line_parse [OF y]
  from variants_agree [of 2026 sample_line 4300, THEN conjunct2, THEN conjunct2, THEN conjunct1,
      rule_format, OF sample_line_row]
  obtain r where r: "parse_log_line 2026 sample_line = Inr (Some r)"
    "event_type r = event_type_db sample_row_2026" "ip_address r = ip_address_db sample_row_2026"
    "risk_score r = risk_score_db sample_row_2026"
    "name_after ''user '' (message r) \<noteq> None \<or> name_after ''for '' (message r) \<noteq> None
       \<longrightarrow> user r = user_name sample_row_2026"
    by blast
  from r(1) p have "message r = sample_message" by auto
  with r(5) sample_message_name have "user r = user_name sample_row_2026" by simp
  with r sample_line_row sample_message_name show ?thesis by simp
qed

text \<open>
  The claim as stated fails on the cron line: the console variant records the user
  "unknown", the database variant "root".
\<close>

theorem variants_user_counterexample:
  "map_sum id (map_option user) (parse_log_line 2026 cron_line) = Inr (Some ''unknown'') \<and>
   map_sum id (map_option user_name) (parse_log_line_db 4300 2026 cron_line) = Inr (Some ''root'')"
  by (simp add: cron_line_record cron_line_row cron_record_def cron_row_def)

subsection \<open>The current year\<close>










subsection \<open>Batches without a raising line\<close>

text \<open>
  What \<^verbatim>\<open>collect\<close> does when no line of the batch makes \<^verbatim>\<open>parse_log_line\<close> raise: a
  blank line never matches the pattern, and the records are those of the matching lines,
  one for each, in the order of the lines.
\<close>

lemma word_not_space: "is_word c \<Longrightarrow> \<not> is_space c"
  by (auto simp: is_word_def is_space_def Let_def)

lemma strip_Nil_all_space:
  assumes "strip l = []"
  shows "\<forall>c \<in> set l. is_space c"
proof -
  from assms have "dropWhile is_space (rev (dropWhile is_space l)) = []"
    by (simp add: strip_def)
  then have "\<forall>c \<in> set (dropWhile is_space l). is_space c"
    by (simp add: dropWhile_eq_Nil_conv)
  then have "dropWhile is_space l = []"
    by (metis dropWhile_eq_Nil_conv hd_dropWhile list.set_sel(1))
  then show ?thesis
    by (simp add: dropWhile_eq_Nil_conv)
qed

lemma blank_no_match:
  assumes "strip l = []"
  shows "re_match pattern l = None"
proof -
  have "runs Word l = []"
  proof (cases l)
    case Nil
    then show ?thesis by simp
  next
    case (Cons x xs)
    with strip_Nil_all_space [OF assms] have "is_space x" by simp
    then have "\<not> is_word x" using word_not_space by blast
    with Cons show ?thesis by simp
  qed
  then show ?thesis
    by (simp add: re_match_def first_match_def pattern_def seqs_def steps_def)
qed

lemma parse_None_no_match:
  assumes "parse_log_line current_year l = Inr None"
  shows "re_match pattern l = None"
proof (cases "re_match pattern l")
  case None
  then show ?thesis .
next
  case (Some m)
  with assms show ?thesis
    by (simp add: parse_log_line_def Let_def split: sum.splits)
qed

lemma collect_loop_records:
  assumes "\<forall>l \<in> set raw_logs. parse_log_line current_year l \<noteq> Inl ValueError"
  shows "\<exists>rs. collect_loop current_year raw_logs parsed_logs = Inr (parsed_logs @ rs) \<and>
              map raw_log rs = filter (\<lambda>l. re_match pattern l \<noteq> None) raw_logs"
  using assms
proof (induction raw_logs arbitrary: parsed_logs)
  case Nil
  then show ?case by simp
next
  case (Cons l ls)
  then have rest: "\<forall>l \<in> set ls. parse_log_line current_year l \<noteq> Inl ValueError"
    and this_line: "parse_log_line current_year l \<noteq> Inl ValueError"
    by simp_all
  show ?case
  proof (cases "strip l = []")
    case True
    then have "re_match pattern l = None" by (rule blank_no_match)
    with True Cons.IH [OF rest, of parsed_logs] show ?thesis by simp
  next
    case False
    show ?thesis
    proof (cases "parse_log_line current_year l")
      case (Inl e)
      with this_line show ?thesis by (cases e) simp
    next
      case (Inr result)
      show ?thesis
      proof (cases result)
        case None
        with Inr have "re_match pattern l = None" by (simp add: parse_None_no_match)
        with None Inr False Cons.IH [OF rest, of parsed_logs] show ?thesis by simp
      next
        case (Some r)
        with Inr have p: "parse_log_line current_year l = Inr (Some r)" by simp
        from parse_log_line_record [OF p] have m: "re_match pattern l \<noteq> None" "raw_log r = l"
          by auto
        from Cons.IH [OF rest, of "parsed_logs @ [r]"] obtain rs where
          rs: "collect_loop current_year ls (parsed_logs @ [r]) = Inr ((parsed_logs @ [r]) @ rs)"
            "map raw_log rs = filter (\<lambda>l. re_match pattern l \<noteq> None) ls"
          by blast
        have "collect_loop current_year (l # ls) parsed_logs = Inr (parsed_logs @ (r # rs))"
          using False p rs(1) by simp
        moreover have "map raw_log (r # rs) = filter (\<lambda>l. re_match pattern l \<noteq> None) (l # ls)"
          using m rs(2) by simp
        ultimately show ?thesis by blast
      qed
    qed
  qed
qed

lemma collect_records:
  assumes "\<forall>l \<in> set raw_logs. parse_log_line current_year l \<noteq> Inl ValueError"
  shows "\<exists>rs. collect current_year raw_logs = Inr rs \<and>
              map raw_log rs = filter (\<lambda>l. re_match pattern l \<noteq> None) raw_logs"
  using collect_loop_records [OF assms, of "[]"] by (simp add: collect_def)

end
